theory Spec2Isabelle
  imports Complex_Main "HOL-Library.AList"
begin

section \<open>Catalog types (src/types.ts)\<close>

text \<open>
  JavaScript numbers are modelled as real numbers: the quantities of the engine are
  stated up to floating-point tolerance, so the model is the exact arithmetic that the
  floating-point code approximates. Real division by zero is \<open>0\<close> in HOL and
  \<open>Infinity\<close> or \<open>NaN\<close> in JavaScript; every division of the engine is by
  \<open>timeSec\<close> or by a rate that the code has tested, and the theorems that depend on a
  division by \<open>timeSec\<close> assume \<open>0 < timeSec\<close>, as the data model requires.
  Strings are byte strings; \<open>trim\<close> and \<open>toLowerCase\<close> are modelled on ASCII.
\<close>

record IO =
  name :: string
  qtyPerCycle :: real

record Recipe =
  recipeId :: string
  building :: string
  timeSec :: real
  inputs :: "IO list"
  outputs :: "IO list"

text \<open>
  \<open>ProductIndex = Record<string, Recipe[]>\<close>: an object used as a dictionary, here an
  association list in insertion order. Names that collide with properties of
  \<open>Object.prototype\<close> are outside the model.
\<close>

type_synonym ProductIndex = "(string \<times> Recipe list) list"

section \<open>String normalisation\<close>

definition is_space :: "char \<Rightarrow> bool" where
  "is_space c = (let n = (of_char c :: nat) in n = 32 \<or> (9 \<le> n \<and> n \<le> 13))"

definition trim :: "string \<Rightarrow> string" where
  "trim s = rev (dropWhile is_space (rev (dropWhile is_space s)))"

definition toLowerCase_char :: "char \<Rightarrow> char" where
  "toLowerCase_char c =
     (let n = (of_char c :: nat) in
      if 65 \<le> n \<and> n \<le> 90
      then (case c of Char b0 b1 b2 b3 b4 b5 b6 b7 \<Rightarrow> Char b0 b1 b2 b3 b4 True b6 b7)
      else c)"

definition toLowerCase :: "string \<Rightarrow> string" where
  "toLowerCase s = map toLowerCase_char s"

section \<open>The product index and the rate lookup (lib/buildIndex.ts)\<close>

text \<open>\<open>(acc[key] ||= []).push(r)\<close>\<close>

definition index_push :: "ProductIndex \<Rightarrow> string \<Rightarrow> Recipe \<Rightarrow> ProductIndex" where
  "index_push acc key r =
     (case map_of acc key of
        None \<Rightarrow> acc @ [(key, [r])]
      | Some list \<Rightarrow> AList.update key (list @ [r]) acc)"

definition PRODUCT_INDEX :: "Recipe list \<Rightarrow> ProductIndex" where
  "PRODUCT_INDEX RECIPES =
     foldl (\<lambda>acc r. foldl (\<lambda>acc out. index_push acc (trim (name out)) r) acc (outputs r))
       [] RECIPES"

text \<open>\<open>PRODUCT_INDEX[product] ?? []\<close>\<close>

definition recipes_for :: "ProductIndex \<Rightarrow> string \<Rightarrow> Recipe list" where
  "recipes_for idx product = (case map_of idx product of None \<Rightarrow> [] | Some list \<Rightarrow> list)"

definition outputRatePerMin :: "Recipe \<Rightarrow> string \<Rightarrow> real" where
  "outputRatePerMin r product =
     (case find (\<lambda>out. toLowerCase (trim (name out)) = toLowerCase (trim product)) (outputs r) of
        None \<Rightarrow> 0
      | Some out \<Rightarrow> (qtyPerCycle out / timeSec r) * 60)"

section \<open>Graph types and the rate engine (state/store.ts)\<close>

record NodeIO =
  io_name :: string
  ratePerMin :: real

record NodeOutput = NodeIO +
  isTarget :: bool

record GraphNode =
  node_id :: string
  node_product :: string
  node_recipeId :: string
  node_building :: string
  runsPerMin :: real
  node_timeSec :: real
  node_inputs :: "NodeIO list"
  node_outputs :: "NodeOutput list"
  node_depth :: nat

record GraphEdge =
  edge_id :: string
  source :: string
  target :: string
  label :: string

definition nodeIdFor :: "string \<Rightarrow> string \<Rightarrow> string" where
  "nodeIdFor product rid = product @ ''::'' @ rid"

text \<open>\<open>rate ? requiredRatePerMin / rate : 0\<close>: the division is evaluated only for a non-zero rate.\<close>

definition makeNode :: "Recipe \<Rightarrow> string \<Rightarrow> real \<Rightarrow> nat \<Rightarrow> GraphNode" where
  "makeNode recipe targetProduct requiredRatePerMin depth =
     (let rate = outputRatePerMin recipe targetProduct;
          runs = (if rate \<noteq> 0 then requiredRatePerMin / rate else 0)
      in \<lparr> node_id = nodeIdFor targetProduct (recipeId recipe),
           node_product = targetProduct,
           node_recipeId = recipeId recipe,
           node_building = building recipe,
           runsPerMin = runs,
           node_timeSec = timeSec recipe,
           node_inputs = map (\<lambda>i. \<lparr> io_name = name i, ratePerMin = runs * qtyPerCycle i \<rparr>)
                           (inputs recipe),
           node_outputs = map (\<lambda>out. \<lparr> io_name = name out,
                                       ratePerMin = runs * (qtyPerCycle out / timeSec recipe) * 60,
                                       isTarget = (toLowerCase (trim (name out))
                                                   = toLowerCase (trim targetProduct)) \<rparr>)
                            (outputs recipe),
           node_depth = depth \<rparr>)"

section \<open>Preference resolution\<close>

text \<open>
  The optional arguments are \<open>string option\<close>: \<open>None\<close> is \<open>undefined\<close> or
  \<open>null\<close>. The code tests them by truthiness, so the empty string is skipped as well.
\<close>

definition find_when :: "string option \<Rightarrow> (string \<Rightarrow> Recipe \<Rightarrow> bool) \<Rightarrow> Recipe list \<Rightarrow> Recipe option" where
  "find_when arg P list =
     (case arg of
        None \<Rightarrow> None
      | Some s \<Rightarrow> if s \<noteq> [] then find (P s) list else None)"

definition pickRecipeWithPrefs ::
  "ProductIndex \<Rightarrow> string \<Rightarrow> string option \<Rightarrow> string option \<Rightarrow> string option \<Rightarrow> Recipe option" where
  "pickRecipeWithPrefs idx product explicitRecipe preferredBuilding parentBuildingPreferred =
     (let list = recipes_for idx product in
      case find_when explicitRecipe (\<lambda>e x. recipeId x = e) list of
        Some r \<Rightarrow> Some r
      | None \<Rightarrow>
         (case find_when parentBuildingPreferred (\<lambda>b x. building x = b) list of
            Some r \<Rightarrow> Some r
          | None \<Rightarrow>
             (case find_when preferredBuilding (\<lambda>b x. building x = b) list of
                Some r \<Rightarrow> Some r
              | None \<Rightarrow> (case list of [] \<Rightarrow> None | r # _ \<Rightarrow> Some r))))"

text \<open>
  The resolution order in the specification's words: each rule is tried with the argument
  as given, first match wins.
\<close>

definition pickRecipe_spec ::
  "Recipe list \<Rightarrow> string option \<Rightarrow> string option \<Rightarrow> string option \<Rightarrow> Recipe option" where
  "pickRecipe_spec list explicitRecipeId preferredBuilding parentBuilding =
     (case (case explicitRecipeId of None \<Rightarrow> None | Some e \<Rightarrow> find (\<lambda>x. recipeId x = e) list) of
        Some r \<Rightarrow> Some r
      | None \<Rightarrow>
         (case (case parentBuilding of None \<Rightarrow> None | Some b \<Rightarrow> find (\<lambda>x. building x = b) list) of
            Some r \<Rightarrow> Some r
          | None \<Rightarrow>
             (case (case preferredBuilding of None \<Rightarrow> None | Some b \<Rightarrow> find (\<lambda>x. building x = b) list) of
                Some r \<Rightarrow> Some r
              | None \<Rightarrow> (case list of [] \<Rightarrow> None | r # _ \<Rightarrow> Some r))))"

text \<open>An argument that the truthiness test lets through.\<close>

definition given :: "string option \<Rightarrow> string option" where
  "given arg = (case arg of None \<Rightarrow> None | Some s \<Rightarrow> if s = [] then None else Some s)"

text \<open>The recipes that list a product among their outputs, once per matching output.\<close>

definition producers :: "Recipe list \<Rightarrow> string \<Rightarrow> Recipe list" where
  "producers RECIPES product =
     concat (map (\<lambda>r. map (\<lambda>_. r) (filter (\<lambda>out. trim (name out) = product) (outputs r))) RECIPES)"

section \<open>Totals\<close>

record Totals =
  raw :: "string \<rightharpoonup> real"
  byproducts :: "string \<rightharpoonup> real"

text \<open>\<open>m[k] = (m[k] || 0) + v\<close>\<close>

definition add_to :: "(string \<rightharpoonup> real) \<Rightarrow> string \<Rightarrow> real \<Rightarrow> (string \<rightharpoonup> real)" where
  "add_to m k v = m(k \<mapsto> (case m k of None \<Rightarrow> 0 | Some x \<Rightarrow> x) + v)"

text \<open>\<open>Math.round(x * 100) / 100\<close>; \<open>Math.round\<close> rounds halves up.\<close>

definition r2 :: "real \<Rightarrow> real" where
  "r2 x = real_of_int \<lfloor>x * 100 + 1 / 2\<rfloor> / 100"

text \<open>The value read by \<open>m[k] || 0\<close>.\<close>

definition stored :: "(string \<rightharpoonup> real) \<Rightarrow> string \<Rightarrow> real" where
  "stored m k = (case m k of None \<Rightarrow> 0 | Some x \<Rightarrow> x)"

definition add_raw :: "ProductIndex \<Rightarrow> NodeIO \<Rightarrow> (string \<rightharpoonup> real) \<Rightarrow> (string \<rightharpoonup> real)" where
  "add_raw idx i m = (if map_of idx (io_name i) = None then add_to m (io_name i) (ratePerMin i) else m)"

definition add_byproduct :: "NodeOutput \<Rightarrow> (string \<rightharpoonup> real) \<Rightarrow> (string \<rightharpoonup> real)" where
  "add_byproduct out m = (if \<not> isTarget out then add_to m (io_name out) (ratePerMin out) else m)"

definition add_node :: "ProductIndex \<Rightarrow> GraphNode
    \<Rightarrow> (string \<rightharpoonup> real) \<times> (string \<rightharpoonup> real) \<Rightarrow> (string \<rightharpoonup> real) \<times> (string \<rightharpoonup> real)" where
  "add_node idx n acc =
     (fold (add_raw idx) (node_inputs n) (fst acc), fold add_byproduct (node_outputs n) (snd acc))"

definition computeTotals :: "ProductIndex \<Rightarrow> GraphNode list \<Rightarrow> Totals" where
  "computeTotals idx ns =
     (let acc = fold (add_node idx) ns (Map.empty, Map.empty)
      in \<lparr> raw = map_option r2 \<circ> fst acc, byproducts = map_option r2 \<circ> snd acc \<rparr>)"

section \<open>The store\<close>

record Target =
  target_product :: string
  target_ratePerMin :: real
  target_recipeId :: "string option"

text \<open>
  The fields of the store that the engine reads and writes. In \<open>choicesRecipe\<close> a
  \<open>null\<close> entry and a missing key are both \<open>None\<close>: the code only tests the value
  by truthiness. Expansion budgets are integers.
\<close>

record State =
  targets :: "Target list"
  choicesRecipe :: "string \<rightharpoonup> string"
  choicesBuilding :: "string \<rightharpoonup> string"
  expandedByNode :: "string \<rightharpoonup> int"
  graphNodes :: "GraphNode list"
  graphEdges :: "GraphEdge list"
  totals :: Totals

text \<open>\<open>expandedByNode[id] ?? 0\<close>\<close>

definition budget :: "State \<Rightarrow> string \<Rightarrow> int" where
  "budget s nodeId = (case expandedByNode s nodeId of None \<Rightarrow> 0 | Some v \<Rightarrow> v)"

text \<open>A node's own stored budget, read off the store's \<open>expandedByNode\<close> record.\<close>

abbreviation stored_budget :: "State \<Rightarrow> string \<Rightarrow> int" where
  "stored_budget s k \<equiv> (case expandedByNode s k of None \<Rightarrow> 0 | Some v \<Rightarrow> v)"

section \<open>The graph builder\<close>

text \<open>
  The local variables of \<open>build\<close>: the two arrays and the two \<open>Map\<close>s (association
  lists in insertion order; \<open>Map.set\<close> is \<open>AList.update\<close>).
\<close>

record Build =
  nodes :: "GraphNode list"
  edges :: "GraphEdge list"
  byKey :: "(string \<times> GraphNode) list"
  byId :: "(string \<times> GraphNode) list"

definition ensureNode ::
  "ProductIndex \<Rightarrow> State \<Rightarrow> string \<Rightarrow> real \<Rightarrow> nat \<Rightarrow> string option \<Rightarrow> Build
   \<Rightarrow> GraphNode option \<times> Build" where
  "ensureNode idx s product requiredRatePerMin depth parentBuilding b =
     (case pickRecipeWithPrefs idx product (choicesRecipe s product) (choicesBuilding s product)
             parentBuilding of
        None \<Rightarrow> (None, b)
      | Some r \<Rightarrow>
         (let key = nodeIdFor product (recipeId r) in
          case map_of (byKey b) key of
            Some n \<Rightarrow> (Some n, b)
          | None \<Rightarrow>
             (let n = makeNode r product requiredRatePerMin depth in
              (Some n, b\<lparr> nodes := nodes b @ [n],
                          byKey := AList.update key n (byKey b),
                          byId := AList.update (node_id n) n (byId b) \<rparr>))))"

text \<open>Decimal digits of \<open>edges.length\<close> in a template string.\<close>

fun digits :: "nat \<Rightarrow> string" where
  "digits n = (if n < 10 then [''0123456789'' ! n]
               else digits (n div 10) @ [''0123456789'' ! (n mod 10)])"

declare digits.simps [simp del]

definition connect :: "GraphNode \<Rightarrow> GraphNode \<Rightarrow> string \<Rightarrow> Build \<Rightarrow> Build" where
  "connect parent child lbl b =
     b\<lparr> edges := edges b @
          [\<lparr> edge_id = node_id parent @ ''=>'' @ node_id child @ ''#'' @ digits (length (edges b)),
             source = node_id parent, target = node_id child, label = lbl \<rparr>] \<rparr>"

text \<open>Step 1: the body of the loop over a root's inputs, and the body of the loop over targets.\<close>

definition baseline_input :: "ProductIndex \<Rightarrow> State \<Rightarrow> GraphNode \<Rightarrow> NodeIO \<Rightarrow> Build \<Rightarrow> Build" where
  "baseline_input idx s rootNode i b =
     (if map_of idx (io_name i) = None then b
      else case ensureNode idx s (io_name i) (ratePerMin i) 1 (Some (node_building rootNode)) b of
             (None, b') \<Rightarrow> b'
           | (Some child, b') \<Rightarrow> connect rootNode child (io_name i) b')"

definition baseline_target :: "ProductIndex \<Rightarrow> State \<Rightarrow> Target \<Rightarrow> Build \<Rightarrow> Build" where
  "baseline_target idx s t b =
     (case ensureNode idx s (target_product t) (target_ratePerMin t) 0 None b of
        (None, b') \<Rightarrow> b'
      | (Some rootNode, b') \<Rightarrow> fold (baseline_input idx s rootNode) (node_inputs rootNode) b')"

definition baseline :: "ProductIndex \<Rightarrow> State \<Rightarrow> Build" where
  "baseline idx s =
     fold (baseline_target idx s) (targets s) \<lparr> nodes = [], edges = [], byKey = [], byId = [] \<rparr>"

text \<open>Step 2: \<open>bestRem\<close> and the queue, seeded from the nodes with a positive budget.\<close>

type_synonym Work = "Build \<times> (string \<rightharpoonup> int) \<times> (string \<times> int) list"

definition seed_node :: "State \<Rightarrow> GraphNode \<Rightarrow> (string \<rightharpoonup> int) \<times> (string \<times> int) list
    \<Rightarrow> (string \<rightharpoonup> int) \<times> (string \<times> int) list" where
  "seed_node s n bq =
     (let extra = budget s (node_id n) in
      if extra > 0 then ((fst bq)(node_id n \<mapsto> extra), snd bq @ [(node_id n, extra)]) else bq)"

definition seed :: "State \<Rightarrow> GraphNode list \<Rightarrow> (string \<rightharpoonup> int) \<times> (string \<times> int) list" where
  "seed s ns = fold (seed_node s) ns (Map.empty, [])"

text \<open>Step 3: the body of the loop over a dequeued node's inputs, and the queue loop.\<close>

fun expand_input :: "ProductIndex \<Rightarrow> State \<Rightarrow> GraphNode \<Rightarrow> int \<Rightarrow> NodeIO \<Rightarrow> Work \<Rightarrow> Work" where
  "expand_input idx s parent effParent i (b, bestRem, queue) =
     (if map_of idx (io_name i) = None then (b, bestRem, queue)
      else case ensureNode idx s (io_name i) (ratePerMin i) (node_depth parent + 1)
                  (Some (node_building parent)) b of
             (None, b') \<Rightarrow> (b', bestRem, queue)
           | (Some child, b') \<Rightarrow>
              (let b'' = (if \<not> list_ex (\<lambda>e. source e = node_id parent \<and> target e = node_id child) (edges b')
                          then connect parent child (io_name i) b' else b');
                   nextRem = effParent - 1;
                   childExtra = budget s (node_id child);
                   childAllowance = max nextRem childExtra
               in if childAllowance > 0
                  then (let prev = (case bestRem (node_id child) of None \<Rightarrow> - 1 | Some v \<Rightarrow> v)
                        in if childAllowance > prev
                           then (b'', bestRem(node_id child \<mapsto> childAllowance),
                                 queue @ [(node_id child, childAllowance)])
                           else (b'', bestRem, queue))
                  else (b'', bestRem, queue)))"

function bfs :: "ProductIndex \<Rightarrow> State \<Rightarrow> Work \<Rightarrow> Build \<times> (string \<rightharpoonup> int)" where
  "bfs idx s (b, bestRem, []) = (b, bestRem)"
| "bfs idx s (b, bestRem, (nodeId, remaining) # queue) =
     (if remaining \<le> 0 then bfs idx s (b, bestRem, queue)
      else case map_of (byId b) nodeId of
             None \<Rightarrow> bfs idx s (b, bestRem, queue)
           | Some parent \<Rightarrow>
              bfs idx s (fold (expand_input idx s parent (max remaining (budget s (node_id parent))))
                           (node_inputs parent) (b, bestRem, queue)))"
  by pat_completeness auto

declare expand_input.simps [simp del]

text \<open>
  The measure of the queue loop: over the finite set of node ids that the index and the two
  maps can produce, the room left between each recorded allowance and the largest value in
  play; a push raises a recorded allowance, a dequeue without a push shortens the queue.
\<close>

definition ids_of :: "(string \<times> GraphNode) list \<Rightarrow> string set" where
  "ids_of al = node_id ` snd ` set al"

definition index_ids :: "ProductIndex \<Rightarrow> string set" where
  "index_ids idx = (\<Union>(p, l) \<in> set idx. (\<lambda>r. nodeIdFor p (recipeId r)) ` set l)"

definition known_ids :: "ProductIndex \<Rightarrow> Build \<Rightarrow> string set" where
  "known_ids idx b = index_ids idx \<union> ids_of (byKey b) \<union> ids_of (byId b)"

definition bestv :: "(string \<rightharpoonup> int) \<Rightarrow> string \<Rightarrow> int" where
  "bestv m c = (case m c of None \<Rightarrow> - 1 | Some v \<Rightarrow> v)"

definition bound :: "State \<Rightarrow> string set \<Rightarrow> (string \<rightharpoonup> int) \<Rightarrow> (string \<times> int) list \<Rightarrow> int" where
  "bound s W best queue = Max (insert 0 (snd ` set queue \<union> budget s ` W \<union> bestv best ` W))"

definition room :: "string set \<Rightarrow> int \<Rightarrow> (string \<rightharpoonup> int) \<Rightarrow> nat" where
  "room W B best = (\<Sum>c\<in>W. nat (B - bestv best c))"

definition potential :: "ProductIndex \<Rightarrow> State \<Rightarrow> Work \<Rightarrow> nat" where
  "potential idx s w =
     room (known_ids idx (fst w)) (bound s (known_ids idx (fst w)) (fst (snd w)) (snd (snd w))) (fst (snd w))"

definition bounded :: "ProductIndex \<Rightarrow> string set \<Rightarrow> int \<Rightarrow> Work \<Rightarrow> bool" where
  "bounded idx W B w \<longleftrightarrow>
     known_ids idx (fst w) \<subseteq> W \<and> (\<forall>c\<in>W. bestv (fst (snd w)) c \<le> B) \<and> (\<forall>x\<in>set (snd (snd w)). snd x \<le> B)"

definition build :: "ProductIndex \<Rightarrow> State \<Rightarrow> State" where
  "build idx s =
     (if targets s = []
      then s\<lparr> graphNodes := [], graphEdges := [],
              totals := \<lparr> raw = Map.empty, byproducts = Map.empty \<rparr> \<rparr>
      else (let b1 = baseline idx s;
                bq = seed s (nodes b1);
                b2 = fst (bfs idx s (b1, fst bq, snd bq))
            in s\<lparr> graphNodes := nodes b2, graphEdges := edges b2,
                    totals := computeTotals idx (nodes b2) \<rparr>))"

text \<open>The map \<open>bestRem\<close> of \<open>build\<close> when its queue loop returns.\<close>

definition final_allowances :: "ProductIndex \<Rightarrow> State \<Rightarrow> (string \<rightharpoonup> int)" where
  "final_allowances idx s = snd (bfs idx s (baseline idx s, seed s (nodes (baseline idx s))))"

section \<open>The expansion controller\<close>

text \<open>Each operation reads the store, writes it, and calls \<open>build\<close> on the written store.\<close>

definition expandNodeOnce :: "ProductIndex \<Rightarrow> string \<Rightarrow> State \<Rightarrow> State" where
  "expandNodeOnce idx nodeId s =
     (let cur = budget s nodeId in
      build idx (s\<lparr> expandedByNode := (expandedByNode s)(nodeId \<mapsto> cur + 1) \<rparr>))"

definition expandBranchBy :: "ProductIndex \<Rightarrow> string \<Rightarrow> int \<Rightarrow> State \<Rightarrow> State" where
  "expandBranchBy idx nodeId hops s =
     (let cur = budget s nodeId in
      build idx (s\<lparr> expandedByNode := (expandedByNode s)(nodeId \<mapsto> cur + max 1 hops) \<rparr>))"

definition swapNodeRecipe :: "ProductIndex \<Rightarrow> string \<Rightarrow> string \<Rightarrow> State \<Rightarrow> State" where
  "swapNodeRecipe idx nodeId rid s =
     (case find (\<lambda>n. node_id n = nodeId) (graphNodes s) of
        None \<Rightarrow> s
      | Some node \<Rightarrow>
         (let list = recipes_for idx (node_product node);
              chosen = find (\<lambda>r. recipeId r = rid) list;
              prevBudget = budget s nodeId;
              newId = nodeIdFor (node_product node) rid;
              nextExpanded = (if prevBudget > 0
                              then (expandedByNode s)(newId \<mapsto> max prevBudget (budget s newId))
                              else expandedByNode s);
              nextExpanded = nextExpanded(nodeId := None)
          in build idx (s\<lparr> choicesRecipe := (choicesRecipe s)(node_product node \<mapsto> rid),
                             choicesBuilding :=
                               (case chosen of
                                  None \<Rightarrow> choicesBuilding s
                                | Some r \<Rightarrow> if building r \<noteq> []
                                            then (choicesBuilding s)(node_product node \<mapsto> building r)
                                            else choicesBuilding s),
                             expandedByNode := nextExpanded \<rparr>)))"

section \<open>Invariants of the builder\<close>

text \<open>
  The invariant of the builder's variables: the two maps index the node list by node id,
  the ids are distinct and each is derived from the node's product and recipe.
\<close>

definition wf_build :: "Build \<Rightarrow> bool" where
  "wf_build b \<longleftrightarrow>
     (\<forall>k n. map_of (byKey b) k = Some n \<longrightarrow> n \<in> set (nodes b) \<and> node_id n = k)
   \<and> (\<forall>n\<in>set (nodes b). map_of (byKey b) (node_id n) = Some n)
   \<and> (\<forall>n\<in>set (nodes b). nodeIdFor (node_product n) (node_recipeId n) = node_id n)
   \<and> distinct (map node_id (nodes b))
   \<and> map_of (byId b) = map_of (byKey b)"

definition grows :: "Build \<Rightarrow> Build \<Rightarrow> bool" where
  "grows b b' \<longleftrightarrow> set (nodes b) \<subseteq> set (nodes b') \<and> set (edges b) \<subseteq> set (edges b')"

text \<open>
  Visibility of the first upstream hop in a node and edge list. An input of a node is
  visible when its name has no index entry or no recipe resolves for it (with the node's
  building as the parent hint), or a node with the id of the resolved child is in the list,
  satisfies \<open>child_ok\<close>, and an edge labelled with the input joins the node to it. A root is
  visible when it is in the list and all its inputs are.
\<close>

definition hop_visible ::
  "(GraphNode \<Rightarrow> bool) \<Rightarrow> ProductIndex \<Rightarrow> State \<Rightarrow> GraphNode list \<Rightarrow> GraphEdge list
   \<Rightarrow> GraphNode \<Rightarrow> NodeIO \<Rightarrow> bool" where
  "hop_visible child_ok idx s ns es parent i =
     (if map_of idx (io_name i) = None then True
      else case pickRecipeWithPrefs idx (io_name i) (choicesRecipe s (io_name i))
                  (choicesBuilding s (io_name i)) (Some (node_building parent)) of
             None \<Rightarrow> True
           | Some rc \<Rightarrow>
              list_ex (\<lambda>child. node_id child = nodeIdFor (io_name i) (recipeId rc) \<and> child_ok child
                         \<and> list_ex (\<lambda>e. source e = node_id parent \<and> target e = node_id child
                                          \<and> label e = io_name i) es) ns)"

definition root_visible ::
  "(GraphNode \<Rightarrow> bool) \<Rightarrow> ProductIndex \<Rightarrow> State \<Rightarrow> GraphNode list \<Rightarrow> GraphEdge list
   \<Rightarrow> GraphNode \<Rightarrow> bool" where
  "root_visible child_ok idx s ns es rootNode =
     (list_ex (\<lambda>n. n = rootNode) ns
      \<and> list_all (hop_visible child_ok idx s ns es rootNode) (node_inputs rootNode))"

text \<open>
  No improvable allowance across an input of a node recorded with allowance \<open>a\<close>: when
  the input has an index entry and resolves (with the node's building as the parent hint),
  the child node and an edge from the node to it are in the lists, and the allowance that the
  child inherits, \<open>max (max a (the node's own budget) - 1) (the child's own budget)\<close>, is
  not positive or is at most the allowance recorded for the child.
\<close>

definition hop_relaxed ::
  "ProductIndex \<Rightarrow> State \<Rightarrow> GraphNode list \<Rightarrow> GraphEdge list \<Rightarrow> (string \<rightharpoonup> int)
   \<Rightarrow> GraphNode \<Rightarrow> int \<Rightarrow> NodeIO \<Rightarrow> bool" where
  "hop_relaxed idx s ns es best parent a i =
     (if map_of idx (io_name i) = None then True
      else case pickRecipeWithPrefs idx (io_name i) (choicesRecipe s (io_name i))
                  (choicesBuilding s (io_name i)) (Some (node_building parent)) of
             None \<Rightarrow> True
           | Some rc \<Rightarrow>
              list_ex (\<lambda>child. node_id child = nodeIdFor (io_name i) (recipeId rc)
                         \<and> list_ex (\<lambda>e. source e = node_id parent \<and> target e = node_id child) es
                         \<and> (let allowance = max (max a (stored_budget s (node_id parent)) - 1)
                                               (stored_budget s (node_id child))
                            in allowance \<le> 0
                               \<or> (case best (node_id child) of None \<Rightarrow> False | Some v \<Rightarrow> allowance \<le> v)))
                ns)"

text \<open>
  The invariant of the queue loop: recorded allowances are positive and belong to nodes of
  the graph, every node's positive budget is covered by its recorded allowance, and every
  node with a recorded allowance is either still in the queue with it (or is the item being
  processed, \<open>X\<close>) or has no improvable allowance across any of its inputs.
\<close>

definition relax_inv :: "ProductIndex \<Rightarrow> State \<Rightarrow> (string \<times> int) set \<Rightarrow> Work \<Rightarrow> bool" where
  "relax_inv idx s X w \<longleftrightarrow>
     wf_build (fst w)
   \<and> (\<forall>k a. fst (snd w) k = Some a \<longrightarrow> 0 < a \<and> k \<in> node_id ` set (nodes (fst w)))
   \<and> (\<forall>n\<in>set (nodes (fst w)). budget s (node_id n) \<le> max 0 (bestv (fst (snd w)) (node_id n)))
   \<and> (\<forall>n\<in>set (nodes (fst w)). \<forall>a. fst (snd w) (node_id n) = Some a \<longrightarrow>
        (node_id n, a) \<in> set (snd (snd w)) \<or> (node_id n, a) \<in> X
        \<or> (\<forall>i\<in>set (node_inputs n).
              hop_relaxed idx s (nodes (fst w)) (edges (fst w)) (fst (snd w)) n a i))"

text \<open>
  The ids of the nodes that step 1 of \<open>build\<close> materialises for a list of targets:
  their roots and first-hop children.
\<close>

definition earlier_ids :: "ProductIndex \<Rightarrow> State \<Rightarrow> Target list \<Rightarrow> string list" where
  "earlier_ids idx s ts = map node_id (nodes (baseline idx (s\<lparr> targets := ts \<rparr>)))"

section \<open>Example catalogs and stores\<close>

definition Gear_R1 :: Recipe where
  "Gear_R1 = \<lparr> recipeId = ''R1'', building = ''Assembler'', timeSec = 2,
      inputs = [\<lparr> name = ''Iron'', qtyPerCycle = 2 \<rparr>],
      outputs = [\<lparr> name = ''Gear'', qtyPerCycle = 1 \<rparr>] \<rparr>"

definition Gear_R2 :: Recipe where
  "Gear_R2 = \<lparr> recipeId = ''R2'', building = ''Press'', timeSec = 1,
      inputs = [\<lparr> name = ''Steel'', qtyPerCycle = 1 \<rparr>],
      outputs = [\<lparr> name = ''Gear'', qtyPerCycle = 1 \<rparr>] \<rparr>"

definition planner :: "Target list \<Rightarrow> (string \<rightharpoonup> int) \<Rightarrow> State" where
  "planner ts budgets =
     \<lparr> targets = ts, choicesRecipe = Map.empty, choicesBuilding = Map.empty,
       expandedByNode = budgets, graphNodes = [], graphEdges = [],
       totals = \<lparr> raw = Map.empty, byproducts = Map.empty \<rparr> \<rparr>"

definition want :: "string \<Rightarrow> real \<Rightarrow> Target" where
  "want p r = \<lparr> target_product = p, target_ratePerMin = r, target_recipeId = None \<rparr>"

definition Plate_Smelter :: Recipe where
  "Plate_Smelter = \<lparr> recipeId = ''P1'', building = ''Smelter'', timeSec = 4,
      inputs = [\<lparr> name = ''Ore'', qtyPerCycle = 2 \<rparr>],
      outputs = [\<lparr> name = ''Plate'', qtyPerCycle = 1 \<rparr>] \<rparr>"

definition Plate_Unnamed :: Recipe where
  "Plate_Unnamed = \<lparr> recipeId = ''P2'', building = '''', timeSec = 4,
      inputs = [\<lparr> name = ''Scrap'', qtyPerCycle = 3 \<rparr>],
      outputs = [\<lparr> name = ''Plate'', qtyPerCycle = 1 \<rparr>] \<rparr>"

definition Machine_M1 :: Recipe where
  "Machine_M1 = \<lparr> recipeId = ''M1'', building = ''Assembler'', timeSec = 10,
      inputs = [\<lparr> name = ''Gear'', qtyPerCycle = 1 \<rparr>, \<lparr> name = ''Frame'', qtyPerCycle = 1 \<rparr>],
      outputs = [\<lparr> name = ''Machine'', qtyPerCycle = 1 \<rparr>] \<rparr>"

definition Gear_G1 :: Recipe where
  "Gear_G1 = \<lparr> recipeId = ''G1'', building = ''Press'', timeSec = 2,
      inputs = [\<lparr> name = ''Plate'', qtyPerCycle = 2 \<rparr>],
      outputs = [\<lparr> name = ''Gear'', qtyPerCycle = 1 \<rparr>] \<rparr>"

definition Frame_F1 :: Recipe where
  "Frame_F1 = \<lparr> recipeId = ''F1'', building = ''Welder'', timeSec = 5,
      inputs = [\<lparr> name = ''Plate'', qtyPerCycle = 3 \<rparr>],
      outputs = [\<lparr> name = ''Frame'', qtyPerCycle = 1 \<rparr>] \<rparr>"

definition Plate_P1 :: Recipe where
  "Plate_P1 = \<lparr> recipeId = ''P1'', building = ''Smelter'', timeSec = 4,
      inputs = [\<lparr> name = ''Ore'', qtyPerCycle = 1 \<rparr>],
      outputs = [\<lparr> name = ''Plate'', qtyPerCycle = 1 \<rparr>] \<rparr>"

definition factory :: "Recipe list" where
  "factory = [Machine_M1, Gear_G1, Frame_F1, Plate_P1]"

definition factory_store :: State where
  "factory_store = planner [want ''Machine'' 6] [''Machine::M1'' \<mapsto> 2]"

definition floor_store :: State where
  "floor_store = planner [want ''Machine'' 6] [''Machine::M1'' \<mapsto> 1, ''Gear::G1'' \<mapsto> 2]"

definition two_targets :: State where
  "two_targets = planner [want ''Gear'' 30, want ''Frame'' 12] Map.empty"

definition Yeast_Y1 :: Recipe where
  "Yeast_Y1 = \<lparr> recipeId = ''Y1'', building = ''Vat'', timeSec = 6,
      inputs = [\<lparr> name = ''Yeast'', qtyPerCycle = 1 \<rparr>, \<lparr> name = ''Sugar'', qtyPerCycle = 1 \<rparr>],
      outputs = [\<lparr> name = ''Yeast'', qtyPerCycle = 2 \<rparr>] \<rparr>"

definition press_store :: State where
  "press_store = (planner [want ''Gear'' 60] [''Gear::R2'' \<mapsto> 2])\<lparr> choicesBuilding := [''Gear'' \<mapsto> ''Press''] \<rparr>"


section \<open>Termination of the queue loop\<close>

lemma finite_known_ids: "finite (known_ids idx b)"
  by (auto simp: known_ids_def index_ids_def ids_of_def)

lemma set_update_subset: "set (AList.update k v al) \<subseteq> insert (k, v) (set al)"
  by (induction al) auto

lemma ids_of_update: "ids_of (AList.update k n al) \<subseteq> insert (node_id n) (ids_of al)"
proof
  fix x assume "x \<in> ids_of (AList.update k n al)"
  then obtain k' m where m: "(k', m) \<in> set (AList.update k n al)" and x: "x = node_id m"
    by (auto simp: ids_of_def)
  from m set_update_subset [of k n al] have "(k', m) = (k, n) \<or> (k', m) \<in> set al"
    by blast
  then show "x \<in> insert (node_id n) (ids_of al)"
    using x by (force simp: ids_of_def)
qed

lemma find_when_in: "find_when arg P list = Some r \<Longrightarrow> r \<in> set list"
  by (auto simp: find_when_def find_Some_iff split: option.splits if_splits)

lemma pick_in_list:
  "pickRecipeWithPrefs idx product e pb parb = Some r \<Longrightarrow> r \<in> set (recipes_for idx product)"
  by (auto simp: pickRecipeWithPrefs_def Let_def split: option.splits list.splits dest: find_when_in)

lemma recipes_for_index_ids:
  assumes "r \<in> set (recipes_for idx product)"
  shows "nodeIdFor product (recipeId r) \<in> index_ids idx"
proof -
  from assms obtain l where l: "map_of idx product = Some l" and r: "r \<in> set l"
    by (cases "map_of idx product") (auto simp: recipes_for_def)
  from l have "(product, l) \<in> set idx"
    by (rule map_of_SomeD)
  with r show ?thesis
    by (force simp: index_ids_def)
qed

lemma node_id_makeNode [simp]: "node_id (makeNode r p q d) = nodeIdFor p (recipeId r)"
  by (simp add: makeNode_def Let_def)

lemma ensureNode_none:
  "pickRecipeWithPrefs idx product (choicesRecipe s product) (choicesBuilding s product) pb = None
   \<Longrightarrow> ensureNode idx s product q d pb b = (None, b)"
  by (simp add: ensureNode_def)

lemma ensureNode_found:
  "pickRecipeWithPrefs idx product (choicesRecipe s product) (choicesBuilding s product) pb = Some r
   \<Longrightarrow> map_of (byKey b) (nodeIdFor product (recipeId r)) = Some n
   \<Longrightarrow> ensureNode idx s product q d pb b = (Some n, b)"
  by (simp add: ensureNode_def)

lemma ensureNode_fresh:
  "pickRecipeWithPrefs idx product (choicesRecipe s product) (choicesBuilding s product) pb = Some r
   \<Longrightarrow> map_of (byKey b) (nodeIdFor product (recipeId r)) = None
   \<Longrightarrow> ensureNode idx s product q d pb b =
        (Some (makeNode r product q d),
         b\<lparr> nodes := nodes b @ [makeNode r product q d],
            byKey := AList.update (nodeIdFor product (recipeId r)) (makeNode r product q d) (byKey b),
            byId := AList.update (nodeIdFor product (recipeId r)) (makeNode r product q d) (byId b) \<rparr>)"
  by (simp add: ensureNode_def Let_def)

lemma ensureNode_cases:
  assumes "ensureNode idx s product q d pb b = (res, b')"
  obtains (none) "res = None" "b' = b"
  | (found) r n where "pickRecipeWithPrefs idx product (choicesRecipe s product) (choicesBuilding s product) pb = Some r"
      "map_of (byKey b) (nodeIdFor product (recipeId r)) = Some n" "res = Some n" "b' = b"
  | (fresh) r where "pickRecipeWithPrefs idx product (choicesRecipe s product) (choicesBuilding s product) pb = Some r"
      "map_of (byKey b) (nodeIdFor product (recipeId r)) = None"
      "res = Some (makeNode r product q d)"
      "b' = b\<lparr> nodes := nodes b @ [makeNode r product q d],
               byKey := AList.update (nodeIdFor product (recipeId r)) (makeNode r product q d) (byKey b),
               byId := AList.update (nodeIdFor product (recipeId r)) (makeNode r product q d) (byId b) \<rparr>"
proof (cases "pickRecipeWithPrefs idx product (choicesRecipe s product) (choicesBuilding s product) pb")
  case None
  with assms ensureNode_none [OF None, of q d b] show ?thesis
    by (intro none) simp_all
next
  case pick: (Some r)
  show ?thesis
  proof (cases "map_of (byKey b) (nodeIdFor product (recipeId r))")
    case None
    with assms ensureNode_fresh [OF pick None, of q d] show ?thesis
      by (intro fresh [of r]) (simp_all add: pick)
  next
    case (Some n)
    with assms ensureNode_found [OF pick Some, of q d] show ?thesis
      by (intro found [of r n]) (simp_all add: pick)
  qed
qed

lemma ensureNode_known:
  assumes "ensureNode idx s product q d pb b = (res, b')"
  shows "known_ids idx b' \<subseteq> known_ids idx b"
    and "res = Some child \<Longrightarrow> node_id child \<in> known_ids idx b'"
proof -
  from assms show "known_ids idx b' \<subseteq> known_ids idx b"
  proof (cases rule: ensureNode_cases)
    case none
    then show ?thesis by simp
  next
    case (found r n)
    then show ?thesis by simp
  next
    case (fresh r)
    have "nodeIdFor product (recipeId r) \<in> index_ids idx"
      using fresh(1) by (intro recipes_for_index_ids pick_in_list)
    then show ?thesis
      using ids_of_update [of "nodeIdFor product (recipeId r)" "makeNode r product q d"]
      by (auto simp: fresh(4) known_ids_def)
  qed
  from assms show "node_id child \<in> known_ids idx b'" if "res = Some child"
  proof (cases rule: ensureNode_cases)
    case none
    with that show ?thesis by simp
  next
    case (found r n)
    then have "(nodeIdFor product (recipeId r), n) \<in> set (byKey b)"
      by (intro map_of_SomeD)
    then show ?thesis
      using that found by (force simp: known_ids_def ids_of_def)
  next
    case (fresh r)
    have "nodeIdFor product (recipeId r) \<in> index_ids idx"
      using fresh(1) by (intro recipes_for_index_ids pick_in_list)
    then show ?thesis
      using that fresh(3) by (auto simp: known_ids_def)
  qed
qed

lemma known_ids_connect [simp]: "known_ids idx (connect p c l b) = known_ids idx b"
  by (simp add: connect_def known_ids_def)


lemma room_mono:
  assumes "finite W" and "\<forall>c\<in>W. bestv best c \<le> bestv best' c"
  shows "room W B best' \<le> room W B best"
  unfolding room_def using assms(2) by (intro sum_mono) auto

lemma room_strict:
  assumes "finite W" and "\<forall>c\<in>W. bestv best c \<le> bestv best' c"
    and "x \<in> W" and "bestv best x < bestv best' x" and "bestv best' x \<le> B"
  shows "room W B best' < room W B best"
  unfolding room_def
proof (rule sum_strict_mono_ex1 [OF assms(1)])
  show "\<forall>c\<in>W. nat (B - bestv best' c) \<le> nat (B - bestv best c)"
    using assms(2) by auto
  show "\<exists>a\<in>W. nat (B - bestv best' a) < nat (B - bestv best a)"
    using assms(3,4,5) by (intro bexI [of _ x]) auto
qed

lemma expand_input_cases:
  obtains (skip) b' where "expand_input idx s parent eff i (b, best, q) = (b', best, q)"
      "known_ids idx b' \<subseteq> known_ids idx b"
  | (push) b' cid a where
      "expand_input idx s parent eff i (b, best, q) = (b', best(cid \<mapsto> a), q @ [(cid, a)])"
      "known_ids idx b' \<subseteq> known_ids idx b" "cid \<in> known_ids idx b'"
      "a = max (eff - 1) (budget s cid)" "0 < a" "bestv best cid < a"
proof (cases "map_of idx (io_name i) = None")
  case True
  then show ?thesis by (intro skip [of b]) (simp_all add: expand_input.simps)
next
  case craftable: False
  obtain res b' where en: "ensureNode idx s (io_name i) (ratePerMin i) (node_depth parent + 1)
      (Some (node_building parent)) b = (res, b')"
    by (cases "ensureNode idx s (io_name i) (ratePerMin i) (node_depth parent + 1)
      (Some (node_building parent)) b") auto
  note kn = ensureNode_known [OF en]
  show ?thesis
  proof (cases res)
    case None
    have "expand_input idx s parent eff i (b, best, q) = (b', best, q)"
      using craftable en None by (auto simp add: expand_input.simps)
    with kn(1) show ?thesis by (intro skip [of b']) simp_all
  next
    case (Some child)
    define b'' where "b'' = (if \<not> list_ex (\<lambda>e. source e = node_id parent \<and> target e = node_id child) (edges b')
                          then connect parent child (io_name i) b' else b')"
    define a where "a = max (eff - 1) (budget s (node_id child))"
    have kb: "known_ids idx b'' = known_ids idx b'"
      by (simp add: b''_def)
    have cid: "node_id child \<in> known_ids idx b''"
      using kn(2) [OF Some] kb by simp
    show ?thesis
    proof (cases "0 < a \<and> bestv best (node_id child) < a")
      case True
      then have "expand_input idx s parent eff i (b, best, q)
                 = (b'', best(node_id child \<mapsto> a), q @ [(node_id child, a)])"
        using craftable en Some by (auto simp add: expand_input.simps Let_def b''_def a_def bestv_def)
      then show ?thesis
        using True kn(1) kb cid a_def by (intro push [of b'' "node_id child" a]) simp_all
    next
      case False
      then have "expand_input idx s parent eff i (b, best, q) = (b'', best, q)"
        using craftable en Some by (auto simp add: expand_input.simps Let_def b''_def a_def bestv_def)
      then show ?thesis
        using kn(1) kb by (intro skip [of b'']) simp_all
    qed
  qed
qed

lemma bestv_upd: "bestv (m(k \<mapsto> v)) c = (if c = k then v else bestv m c)"
  by (simp add: bestv_def)

lemma expand_input_step:
  assumes fin: "finite W" and bd: "bounded idx W B w" and eff: "eff \<le> B"
    and bud: "\<forall>c\<in>W. budget s c \<le> B"
  shows "bounded idx W B (expand_input idx s parent eff i w)
       \<and> room W B (fst (snd (expand_input idx s parent eff i w))) \<le> room W B (fst (snd w))
       \<and> (snd (expand_input idx s parent eff i w) = snd w
          \<or> room W B (fst (snd (expand_input idx s parent eff i w))) < room W B (fst (snd w)))"
proof -
  obtain b best q where w: "w = (b, best, q)"
    by (cases w) auto
  show ?thesis
  proof (cases rule: expand_input_cases [of idx s parent eff i b best q])
    case (skip b')
    then show ?thesis
      using bd by (auto simp: w bounded_def)
  next
    case (push b' cid a)
    have cW: "cid \<in> W"
      using push(2,3) bd by (auto simp: w bounded_def)
    have aB: "a \<le> B"
      using push(4) eff bud cW by auto
    have mono: "\<forall>c\<in>W. bestv best c \<le> bestv (best(cid \<mapsto> a)) c"
      using push(6) by (auto simp: bestv_upd)
    have "bounded idx W B (b', best(cid \<mapsto> a), q @ [(cid, a)])"
      using bd push(2) aB by (auto simp: w bounded_def bestv_upd)
    moreover have "room W B (best(cid \<mapsto> a)) < room W B best"
      using fin mono cW push(6) aB by (intro room_strict [of W best _ cid]) (simp_all add: bestv_upd)
    ultimately show ?thesis
      by (simp add: w push(1))
  qed
qed

lemma expand_inputs_step:
  assumes fin: "finite W" and eff: "eff \<le> B" and bud: "\<forall>c\<in>W. budget s c \<le> B"
  shows "bounded idx W B w \<Longrightarrow>
         bounded idx W B (fold (expand_input idx s parent eff) ins w)
       \<and> room W B (fst (snd (fold (expand_input idx s parent eff) ins w))) \<le> room W B (fst (snd w))
       \<and> (snd (fold (expand_input idx s parent eff) ins w) = snd w
          \<or> room W B (fst (snd (fold (expand_input idx s parent eff) ins w))) < room W B (fst (snd w)))"
proof (induction ins arbitrary: w)
  case Nil
  then show ?case by simp
next
  case (Cons i ins)
  let ?w1 = "expand_input idx s parent eff i w"
  let ?w2 = "fold (expand_input idx s parent eff) ins ?w1"
  note st = expand_input_step [OF fin Cons.prems eff bud, of parent i]
  from st have b1: "bounded idx W B ?w1" by blast
  note ih = Cons.IH [OF b1]
  have f: "fold (expand_input idx s parent eff) (i # ins) w = ?w2"
    by simp
  have "bounded idx W B ?w2"
    using ih by blast
  moreover have "room W B (fst (snd ?w2)) \<le> room W B (fst (snd w))"
    using st ih by linarith
  moreover have "snd ?w2 = snd w \<or> room W B (fst (snd ?w2)) < room W B (fst (snd w))"
  proof (cases "snd ?w2 = snd ?w1 \<and> snd ?w1 = snd w")
    case True
    then show ?thesis by simp
  next
    case False
    then have "room W B (fst (snd ?w2)) < room W B (fst (snd ?w1))
             \<or> room W B (fst (snd ?w1)) < room W B (fst (snd w))"
      using st ih by blast
    then have "room W B (fst (snd ?w2)) < room W B (fst (snd w))"
      using st ih by linarith
    then show ?thesis ..
  qed
  ultimately show ?case
    unfolding f by blast
qed


lemma bound_ge:
  assumes "finite W"
  shows "0 \<le> bound s W best q"
    and "c \<in> W \<Longrightarrow> budget s c \<le> bound s W best q"
    and "c \<in> W \<Longrightarrow> bestv best c \<le> bound s W best q"
    and "x \<in> set q \<Longrightarrow> snd x \<le> bound s W best q"
  unfolding bound_def using assms by (auto intro!: Max_ge)

lemma bound_le:
  assumes "finite W" and "0 \<le> B" and "\<forall>c\<in>W. budget s c \<le> B"
    and "\<forall>c\<in>W. bestv best c \<le> B" and "\<forall>x\<in>set q. snd x \<le> B"
  shows "bound s W best q \<le> B"
  unfolding bound_def using assms by (subst Max_le_iff) auto

lemma potential_le:
  assumes fin: "finite W" and bd: "bounded idx W B w" and B0: "0 \<le> B"
    and bud: "\<forall>c\<in>W. budget s c \<le> B"
  shows "potential idx s w \<le> room W B (fst (snd w))"
proof -
  let ?W = "known_ids idx (fst w)"
  let ?B = "bound s ?W (fst (snd w)) (snd (snd w))"
  have sub: "?W \<subseteq> W"
    using bd by (simp add: bounded_def)
  have "?B \<le> B"
    using bd bud B0 sub by (intro bound_le finite_known_ids) (auto simp: bounded_def)
  then have "room ?W ?B (fst (snd w)) \<le> room ?W B (fst (snd w))"
    unfolding room_def by (intro sum_mono) auto
  also have "\<dots> \<le> room W B (fst (snd w))"
    unfolding room_def using fin sub by (intro sum_mono2) auto
  finally show ?thesis
    by (simp add: potential_def)
qed

lemma potential_dequeue:
  "potential idx s (b, best, q) \<le> potential idx s (b, best, x # q)"
proof -
  let ?W = "known_ids idx b"
  let ?B = "bound s ?W best (x # q)"
  note ge = bound_ge [OF finite_known_ids, where s = s and idx1 = idx and b1 = b and best = best and q = "x # q"]
  have "bounded idx ?W ?B (b, best, q)"
    using ge by (simp add: bounded_def)
  from potential_le [OF finite_known_ids this ge(1)] ge(2)
  have "potential idx s (b, best, q) \<le> room ?W ?B (fst (snd (b, best, q)))"
    by blast
  then show ?thesis
    by (simp add: potential_def)
qed

lemma potential_expand:
  fixes idx :: ProductIndex and s :: State and remaining :: int
    and best :: "string \<rightharpoonup> int" and q :: "(string \<times> int) list"
  assumes par: "map_of (byId b) nodeId = Some parent"
  defines "w' \<equiv> fold (expand_input idx s parent (max remaining (budget s (node_id parent))))
                   (node_inputs parent) (b, best, q)"
  shows "potential idx s w' < potential idx s (b, best, (nodeId, remaining) # q)
       \<or> (potential idx s w' \<le> potential idx s (b, best, (nodeId, remaining) # q)
          \<and> length (snd (snd w')) = length q)"
proof -
  let ?W = "known_ids idx b"
  let ?B = "bound s ?W best ((nodeId, remaining) # q)"
  note fin = finite_known_ids [of idx b]
  note ge = bound_ge [OF fin, where s = s and best = best and q = "(nodeId, remaining) # q"]
  have bud: "\<forall>c\<in>?W. budget s c \<le> ?B"
    using ge(2) by blast
  have bd: "bounded idx ?W ?B (b, best, q)"
    using ge by (simp add: bounded_def)
  have "(nodeId, parent) \<in> set (byId b)"
    using par by (rule map_of_SomeD)
  then have "node_id parent \<in> ?W"
    by (force simp: known_ids_def ids_of_def)
  then have eff: "max remaining (budget s (node_id parent)) \<le> ?B"
    using ge(2) [of "node_id parent"] ge(4) [of "(nodeId, remaining)"] by simp
  note st = expand_inputs_step [OF fin eff bud bd, where parent = parent and ins = "node_inputs parent",
      folded w'_def]
  have p0: "potential idx s (b, best, (nodeId, remaining) # q) = room ?W ?B best"
    by (simp add: potential_def)
  have p1: "potential idx s w' \<le> room ?W ?B (fst (snd w'))"
    using st by (intro potential_le [OF fin _ ge(1) bud]) blast
  from st have "snd w' = (best, q) \<or> room ?W ?B (fst (snd w')) < room ?W ?B best"
    by simp
  then show ?thesis
  proof
    assume "snd w' = (best, q)"
    then show ?thesis
      using p1 by (simp add: p0)
  next
    assume "room ?W ?B (fst (snd w')) < room ?W ?B best"
    then show ?thesis
      using p1 by (simp add: p0)
  qed
qed

lemma bfs_dequeue_decreases:
  "((idx, s, b, best, q), (idx, s, b, best, x # q))
   \<in> measures [\<lambda>(idx, s, w). potential idx s w, \<lambda>(idx, s, w). length (snd (snd w))]"
  using potential_dequeue [where idx = idx and s = s and b = b and best = best and q = q and x = x]
  by auto

lemma bfs_expand_decreases:
  assumes "map_of (byId b) nodeId = Some parent"
  shows "((idx, s, fold (expand_input idx s parent (max remaining (budget s (node_id parent))))
                    (node_inputs parent) (b, best, q)),
          (idx, s, b, best, (nodeId, remaining) # q))
   \<in> measures [\<lambda>(idx, s, w). potential idx s w, \<lambda>(idx, s, w). length (snd (snd w))]"
  using potential_expand [OF assms, where idx = idx and s = s and remaining = remaining
      and best = best and q = q]
  by auto

termination bfs
proof (relation "measures [\<lambda>(idx, s, w). potential idx s w, \<lambda>(idx, s, w). length (snd (snd w))]",
    goal_cases)
  case 1
  show ?case by simp
next
  case 2
  show ?case by (rule bfs_dequeue_decreases)
next
  case 3
  show ?case by (rule bfs_dequeue_decreases)
next
  case 4
  from 4(2) show ?case by (rule bfs_expand_decreases)
qed

section \<open>The builder keeps its invariant and only adds nodes and edges\<close>

lemma grows_refl [simp]: "grows b b"
  by (simp add: grows_def)

lemma grows_trans: "grows a b \<Longrightarrow> grows b c \<Longrightarrow> grows a c"
  by (auto simp: grows_def)

lemma wf_build_empty: "wf_build \<lparr> nodes = [], edges = [], byKey = [], byId = [] \<rparr>"
  by (simp add: wf_build_def)

lemma wf_buildD:
  assumes "wf_build b"
  shows "map_of (byKey b) k = Some n \<Longrightarrow> n \<in> set (nodes b)"
    and "map_of (byKey b) k = Some n \<Longrightarrow> node_id n = k"
    and "n \<in> set (nodes b) \<Longrightarrow> map_of (byKey b) (node_id n) = Some n"
    and "n \<in> set (nodes b) \<Longrightarrow> nodeIdFor (node_product n) (node_recipeId n) = node_id n"
    and "distinct (map node_id (nodes b))"
    and "map_of (byId b) = map_of (byKey b)"
  using assms unfolding wf_build_def by blast+

lemma wf_build_fresh:
  assumes wf: "wf_build b" and none: "map_of (byKey b) (nodeIdFor product (recipeId r)) = None"
  shows "wf_build (b\<lparr> nodes := nodes b @ [makeNode r product q d],
               byKey := AList.update (nodeIdFor product (recipeId r)) (makeNode r product q d) (byKey b),
               byId := AList.update (nodeIdFor product (recipeId r)) (makeNode r product q d) (byId b) \<rparr>)"
proof -
  define k where "k = nodeIdFor product (recipeId r)"
  define m where "m = makeNode r product q d"
  define b' where "b' = b\<lparr> nodes := nodes b @ [m], byKey := AList.update k m (byKey b),
                           byId := AList.update k m (byId b) \<rparr>"
  have sel: "nodes b' = nodes b @ [m]" "map_of (byKey b') = (map_of (byKey b))(k \<mapsto> m)"
    "map_of (byId b') = (map_of (byId b))(k \<mapsto> m)"
    by (simp_all add: b'_def fun_eq_iff update_conv)
  have idm: "node_id m = k"
    by (simp add: m_def k_def)
  have shape: "nodeIdFor (node_product m) (node_recipeId m) = node_id m"
    by (simp add: m_def makeNode_def Let_def)
  have new: "node_id n \<noteq> k" if "n \<in> set (nodes b)" for n
    using wf_buildD(3) [OF wf that] none by (auto simp: k_def)
  have "wf_build b'"
    unfolding wf_build_def sel
  proof (intro conjI allI ballI impI)
    fix k' n
    assume *: "((map_of (byKey b))(k \<mapsto> m)) k' = Some n"
    show "n \<in> set (nodes b @ [m])"
      using * wf_buildD(1) [OF wf, of k' n] by (cases "k' = k") simp_all
    show "node_id n = k'"
      using * wf_buildD(2) [OF wf, of k' n] idm by (cases "k' = k") simp_all
  next
    fix n
    assume "n \<in> set (nodes b @ [m])"
    then have n: "n \<in> set (nodes b) \<or> n = m"
      by auto
    then show "((map_of (byKey b))(k \<mapsto> m)) (node_id n) = Some n"
    proof
      assume "n \<in> set (nodes b)"
      with new [of n] wf_buildD(3) [OF wf, of n] show ?thesis by simp
    next
      assume "n = m"
      with idm show ?thesis by simp
    qed
    from n show "nodeIdFor (node_product n) (node_recipeId n) = node_id n"
      using wf_buildD(4) [OF wf, of n] shape by blast
  next
    have "k \<notin> node_id ` set (nodes b)"
      using new by blast
    then show "distinct (map node_id (nodes b @ [m]))"
      using wf_buildD(5) [OF wf] idm by simp
  next
    show "(map_of (byId b))(k \<mapsto> m) = (map_of (byKey b))(k \<mapsto> m)"
      using wf_buildD(6) [OF wf] by simp
  qed
  then show ?thesis
    unfolding b'_def k_def m_def .
qed

lemma wf_build_connect [simp]: "wf_build (connect p c l b) = wf_build b"
  by (simp add: wf_build_def connect_def)

lemma grows_connect: "grows b (connect p c l b)"
  by (auto simp: grows_def connect_def)

lemma ensureNode_wf:
  assumes "wf_build b" and "ensureNode idx s product q d pb b = (res, b')"
  shows "wf_build b'" and "grows b b'"
    and "res = Some n \<Longrightarrow> n \<in> set (nodes b')"
proof -
  from assms(2) show "wf_build b'"
  proof (cases rule: ensureNode_cases)
    case none
    show ?thesis unfolding none(2) by (rule assms(1))
  next
    case (found r n)
    show ?thesis unfolding found(4) by (rule assms(1))
  next
    case (fresh r)
    show ?thesis unfolding fresh(4) by (rule wf_build_fresh [OF assms(1) fresh(2)])
  qed
  from assms(2) show "grows b b'"
  proof (cases rule: ensureNode_cases)
    case none
    show ?thesis unfolding none(2) by simp
  next
    case (found r n)
    show ?thesis unfolding found(4) by simp
  next
    case (fresh r)
    show ?thesis unfolding fresh(4) grows_def by auto
  qed
  from assms(2) show "n \<in> set (nodes b')" if "res = Some n"
  proof (cases rule: ensureNode_cases)
    case none
    from that none(1) show ?thesis by simp
  next
    case (found r m)
    from that found(3) have "m = n" by simp
    with wf_buildD(1) [OF assms(1) found(2)] show ?thesis unfolding found(4) by simp
  next
    case (fresh r)
    from that fresh(3) show ?thesis unfolding fresh(4) by simp
  qed
qed

lemma ensureNode_id:
  assumes "ensureNode idx s product q d pb b = (res, b')" and "wf_build b"
    and pick: "pickRecipeWithPrefs idx product (choicesRecipe s product) (choicesBuilding s product) pb = Some r"
  shows "\<exists>n. res = Some n \<and> node_id n = nodeIdFor product (recipeId r)"
proof (cases "map_of (byKey b) (nodeIdFor product (recipeId r))")
  case None
  from ensureNode_fresh [OF pick None, of q d] assms(1) show ?thesis
    by auto
next
  case (Some n)
  from ensureNode_found [OF pick Some, of q d] assms(1) have "res = Some n"
    by simp
  moreover from Some assms(2) have "node_id n = nodeIdFor product (recipeId r)"
    by (simp add: wf_build_def)
  ultimately show ?thesis by simp
qed

lemma baseline_input_wf:
  assumes "wf_build b"
  shows "wf_build (baseline_input idx s rootNode i b) \<and> grows b (baseline_input idx s rootNode i b)"
proof (cases "map_of idx (io_name i) = None")
  case True
  with assms show ?thesis by (simp add: baseline_input_def)
next
  case False
  obtain res b' where en: "ensureNode idx s (io_name i) (ratePerMin i) 1 (Some (node_building rootNode)) b = (res, b')"
    by (cases "ensureNode idx s (io_name i) (ratePerMin i) 1 (Some (node_building rootNode)) b") auto
  note w = ensureNode_wf(1,2) [OF assms en]
  show ?thesis
  proof (cases res)
    case None
    with False en w show ?thesis by (auto simp add: baseline_input_def)
  next
    case (Some child)
    have "baseline_input idx s rootNode i b = connect rootNode child (io_name i) b'"
      using False en Some by (auto simp add: baseline_input_def)
    with w grows_trans [OF w(2) grows_connect] show ?thesis by simp
  qed
qed

lemma baseline_inputs_wf:
  "wf_build b \<Longrightarrow> wf_build (fold (baseline_input idx s rootNode) ins b)
                   \<and> grows b (fold (baseline_input idx s rootNode) ins b)"
proof (induction ins arbitrary: b)
  case Nil
  then show ?case by simp
next
  case (Cons i ins)
  let ?b = "baseline_input idx s rootNode i b"
  from baseline_input_wf [OF Cons.prems, of idx s rootNode i]
  have 1: "wf_build ?b" and 2: "grows b ?b" by blast+
  from Cons.IH [OF 1] grows_trans [OF 2]
  show ?case by simp
qed

lemma baseline_target_wf:
  assumes "wf_build b"
  shows "wf_build (baseline_target idx s t b) \<and> grows b (baseline_target idx s t b)"
proof -
  obtain res b' where en: "ensureNode idx s (target_product t) (target_ratePerMin t) 0 None b = (res, b')"
    by (cases "ensureNode idx s (target_product t) (target_ratePerMin t) 0 None b") auto
  note w = ensureNode_wf(1,2) [OF assms en]
  show ?thesis
  proof (cases res)
    case None
    with en w show ?thesis by (simp add: baseline_target_def)
  next
    case (Some rootNode)
    have "baseline_target idx s t b = fold (baseline_input idx s rootNode) (node_inputs rootNode) b'"
      using en Some by (simp add: baseline_target_def)
    with baseline_inputs_wf [OF w(1), of idx s rootNode "node_inputs rootNode"] grows_trans [OF w(2)]
    show ?thesis by simp
  qed
qed

lemma baseline_targets_wf:
  "wf_build b \<Longrightarrow> wf_build (fold (baseline_target idx s) ts b)
                   \<and> grows b (fold (baseline_target idx s) ts b)"
proof (induction ts arbitrary: b)
  case Nil
  then show ?case by simp
next
  case (Cons t ts)
  let ?b = "baseline_target idx s t b"
  from baseline_target_wf [OF Cons.prems, of idx s t]
  have 1: "wf_build ?b" and 2: "grows b ?b" by blast+
  from Cons.IH [OF 1] grows_trans [OF 2]
  show ?case by simp
qed

lemma wf_baseline: "wf_build (baseline idx s)"
  using baseline_targets_wf [OF wf_build_empty] by (simp add: baseline_def)

lemma expand_input_wf:
  assumes "wf_build b"
  shows "wf_build (fst (expand_input idx s parent eff i (b, best, q)))
       \<and> grows b (fst (expand_input idx s parent eff i (b, best, q)))"
proof (cases "map_of idx (io_name i) = None")
  case True
  with assms show ?thesis by (simp add: expand_input.simps)
next
  case False
  obtain res b' where en: "ensureNode idx s (io_name i) (ratePerMin i) (node_depth parent + 1)
      (Some (node_building parent)) b = (res, b')"
    by (cases "ensureNode idx s (io_name i) (ratePerMin i) (node_depth parent + 1)
      (Some (node_building parent)) b") auto
  note w = ensureNode_wf(1,2) [OF assms en]
  show ?thesis
  proof (cases res)
    case None
    with False en w show ?thesis by (auto simp add: expand_input.simps)
  next
    case (Some child)
    have "fst (expand_input idx s parent eff i (b, best, q)) = b'
        \<or> fst (expand_input idx s parent eff i (b, best, q)) = connect parent child (io_name i) b'"
      using False en Some by (auto simp add: expand_input.simps Let_def)
    with w grows_trans [OF w(2) grows_connect] show ?thesis by auto
  qed
qed

lemma expand_inputs_wf:
  "wf_build (fst w) \<Longrightarrow> wf_build (fst (fold (expand_input idx s parent eff) ins w))
                   \<and> grows (fst w) (fst (fold (expand_input idx s parent eff) ins w))"
proof (induction ins arbitrary: w)
  case Nil
  then show ?case by simp
next
  case (Cons i ins)
  obtain b best q where w: "w = (b, best, q)" by (cases w) auto
  let ?w = "expand_input idx s parent eff i w"
  from expand_input_wf [of b idx s parent eff i best q] Cons.prems
  have 1: "wf_build (fst ?w)" and 2: "grows (fst w) (fst ?w)" by (simp_all add: w)
  from Cons.IH [OF 1] grows_trans [OF 2]
  show ?case by simp
qed

lemma bfs_wf:
  "wf_build (fst w) \<Longrightarrow> wf_build (fst (bfs idx s w)) \<and> grows (fst w) (fst (bfs idx s w))"
proof (induction idx s w rule: bfs.induct)
  case (1 idx s b bestRem)
  then show ?case by simp
next
  case (2 idx s b bestRem nodeId remaining queue)
  show ?case
  proof (cases "remaining \<le> 0")
    case True
    with 2 show ?thesis by simp
  next
    case pos: False
    show ?thesis
    proof (cases "map_of (byId b) nodeId")
      case None
      with 2 pos show ?thesis by simp
    next
      case (Some parent)
      let ?w = "fold (expand_input idx s parent (max remaining (budget s (node_id parent))))
                  (node_inputs parent) (b, bestRem, queue)"
      from "2.prems" have wb: "wf_build (fst (b, bestRem, queue))" by simp
      note e = expand_inputs_wf [OF wb, of idx s parent "max remaining (budget s (node_id parent))" "node_inputs parent"]
      from e have 1: "wf_build (fst ?w)" and g: "grows b (fst ?w)" by simp_all
      have "bfs idx s (b, bestRem, (nodeId, remaining) # queue) = bfs idx s ?w"
        using pos Some by simp
      with "2.IH"(3) [OF pos Some 1] grows_trans [OF g]
      show ?thesis by simp
    qed
  qed
qed

lemma build_nodes:
  "targets s \<noteq> [] \<Longrightarrow>
   graphNodes (build idx s) = nodes (fst (bfs idx s (baseline idx s, seed s (nodes (baseline idx s)))))
   \<and> graphEdges (build idx s) = edges (fst (bfs idx s (baseline idx s, seed s (nodes (baseline idx s)))))"
  by (simp add: build_def Let_def)

lemma build_wf:
  "distinct (map node_id (graphNodes (build idx s)))
   \<and> (\<forall>n\<in>set (graphNodes (build idx s)). nodeIdFor (node_product n) (node_recipeId n) = node_id n)"
proof (cases "targets s = []")
  case True
  then show ?thesis by (simp add: build_def)
next
  case False
  have "wf_build (fst (bfs idx s (baseline idx s, seed s (nodes (baseline idx s)))))"
    using bfs_wf [of "(baseline idx s, seed s (nodes (baseline idx s)))" idx s] wf_baseline [of idx s]
    by simp
  then show ?thesis
    using build_nodes [OF False, of idx] by (simp add: wf_build_def)
qed

lemma build_grows:
  "targets s \<noteq> [] \<Longrightarrow>
   set (nodes (baseline idx s)) \<subseteq> set (graphNodes (build idx s))
   \<and> set (edges (baseline idx s)) \<subseteq> set (graphEdges (build idx s))"
  using bfs_wf [of "(baseline idx s, seed s (nodes (baseline idx s)))" idx s] wf_baseline [of idx s]
    build_nodes [of s idx]
  by (simp add: grows_def)

section \<open>Properties of the rate engine\<close>

lemma find_filter_single:
  "filter P xs = [x] \<Longrightarrow> find P xs = Some x"
  by (induction xs) (auto split: if_splits)

lemma runs_times_rate:
  fixes r q t :: real
  assumes "0 < t" and "q \<noteq> 0"
  shows "r / (q / t * 60) * (q / t) * 60 = r"
  using assms by simp

text \<open>
  C1 (as amended). For a required rate \<open>r > 0\<close>: when exactly one output of the recipe
  matches the target product under trimmed, case-insensitive equality and that output has a
  non-zero quantity per cycle, the node's outputs hold exactly one entry flagged
  \<open>isTarget\<close>, every other entry is not flagged, and the rate of the flagged entry is
  \<open>r\<close>. Rates are real numbers here, so the equality is exact; in the code's
  double-precision arithmetic it holds within floating-point tolerance. The cycle time is
  positive, as the catalog type requires.
\<close>

theorem makeNode_single_target:
  assumes "0 < timeSec R" and "0 < r"
    and "filter (\<lambda>out. toLowerCase (trim (name out)) = toLowerCase (trim targetProduct)) (outputs R) = [out]"
    and "qtyPerCycle out \<noteq> 0"
  shows "filter isTarget (node_outputs (makeNode R targetProduct r d))
         = [\<lparr> io_name = name out, ratePerMin = r, isTarget = True \<rparr>]
       \<and> length (filter (\<lambda>x. \<not> isTarget x) (node_outputs (makeNode R targetProduct r d)))
         = length (outputs R) - 1"
proof -
  let ?P = "\<lambda>out. toLowerCase (trim (name out)) = toLowerCase (trim targetProduct)"
  have f: "find ?P (outputs R) = Some out"
    using assms(3) by (rule find_filter_single)
  have rate: "outputRatePerMin R targetProduct = qtyPerCycle out / timeSec R * 60"
    by (simp add: outputRatePerMin_def f)
  have nz: "outputRatePerMin R targetProduct \<noteq> 0"
    using assms(1,4) by (simp add: rate)
  have match: "?P out"
    using assms(3) by (metis (mono_tags, lifting) filter_eq_ConsD)
  have flagged: "filter isTarget (node_outputs (makeNode R targetProduct r d))
         = [\<lparr> io_name = name out, ratePerMin = r, isTarget = True \<rparr>]"
    using nz match runs_times_rate [OF assms(1) assms(4), of r]
    by (simp add: makeNode_def Let_def filter_map comp_def assms(3) rate)
  have "length (filter (\<lambda>x. \<not> isTarget x) (node_outputs (makeNode R targetProduct r d)))
        + length (filter isTarget (node_outputs (makeNode R targetProduct r d)))
        = length (node_outputs (makeNode R targetProduct r d))"
    using sum_length_filter_compl [of isTarget "node_outputs (makeNode R targetProduct r d)"]
    by simp
  moreover have "length (node_outputs (makeNode R targetProduct r d)) = length (outputs R)"
    by (simp add: makeNode_def Let_def)
  ultimately show ?thesis
    using flagged by simp
qed

theorem makeNode_single_target_witness:
  "filter isTarget (node_outputs (makeNode
      \<lparr> recipeId = ''R1'', building = ''Assembler'', timeSec = 2,
        inputs = [\<lparr> name = ''Iron'', qtyPerCycle = 2 \<rparr>],
        outputs = [\<lparr> name = ''Gear'', qtyPerCycle = 1 \<rparr>, \<lparr> name = ''Slag'', qtyPerCycle = 3 \<rparr>] \<rparr>
      '' gear'' 60 0))
   = [\<lparr> io_name = ''Gear'', ratePerMin = 60, isTarget = True \<rparr>]
   \<and> map isTarget (node_outputs (makeNode
      \<lparr> recipeId = ''R1'', building = ''Assembler'', timeSec = 2,
        inputs = [\<lparr> name = ''Iron'', qtyPerCycle = 2 \<rparr>],
        outputs = [\<lparr> name = ''Gear'', qtyPerCycle = 1 \<rparr>, \<lparr> name = ''Slag'', qtyPerCycle = 3 \<rparr>] \<rparr>
      '' gear'' 60 0)) = [True, False]"
  using makeNode_single_target [of
      "\<lparr> recipeId = ''R1'', building = ''Assembler'', timeSec = 2,
        inputs = [\<lparr> name = ''Iron'', qtyPerCycle = 2 \<rparr>],
        outputs = [\<lparr> name = ''Gear'', qtyPerCycle = 1 \<rparr>, \<lparr> name = ''Slag'', qtyPerCycle = 3 \<rparr>] \<rparr>"
      60 "'' gear''" "\<lparr> name = ''Gear'', qtyPerCycle = 1 \<rparr>" 0]
  by (simp add: trim_def toLowerCase_def toLowerCase_char_def is_space_def)
     (simp add: makeNode_def outputRatePerMin_def trim_def toLowerCase_def toLowerCase_char_def
        is_space_def)

text \<open>
  C1 (as stated) fails: two outputs match the target product, both are flagged, and since
  the first match has quantity 0 no entry has the required rate 60.
\<close>

theorem makeNode_target_counterexample:
  "map isTarget (node_outputs (makeNode
      \<lparr> recipeId = ''R1'', building = ''Assembler'', timeSec = 2, inputs = [],
        outputs = [\<lparr> name = ''Gear'', qtyPerCycle = 0 \<rparr>, \<lparr> name = ''gear '', qtyPerCycle = 1 \<rparr>] \<rparr>
      ''Gear'' 60 0)) = [True, True]
   \<and> map ratePerMin (node_outputs (makeNode
      \<lparr> recipeId = ''R1'', building = ''Assembler'', timeSec = 2, inputs = [],
        outputs = [\<lparr> name = ''Gear'', qtyPerCycle = 0 \<rparr>, \<lparr> name = ''gear '', qtyPerCycle = 1 \<rparr>] \<rparr>
      ''Gear'' 60 0)) = [0, 0]"
  by (simp add: makeNode_def outputRatePerMin_def trim_def toLowerCase_def toLowerCase_char_def
      is_space_def)

text \<open>
  C8. The output rate of a recipe for a product is 0 exactly when no output matches the
  product or the matched output has quantity 0; then the node has \<open>runsPerMin = 0\<close> and
  every input and output rate 0. \<open>makeNode\<close> is a total function: it has no error result.
\<close>

theorem makeNode_zero_rate:
  assumes "0 < timeSec R"
  shows "(outputRatePerMin R p = 0 \<longleftrightarrow>
            (find (\<lambda>out. toLowerCase (trim (name out)) = toLowerCase (trim p)) (outputs R) = None
             \<or> (\<exists>out. find (\<lambda>out. toLowerCase (trim (name out)) = toLowerCase (trim p)) (outputs R) = Some out
                    \<and> qtyPerCycle out = 0)))
       \<and> (outputRatePerMin R p = 0 \<longrightarrow>
            runsPerMin (makeNode R p r d) = 0
            \<and> (\<forall>i \<in> set (node_inputs (makeNode R p r d)). ratePerMin i = 0)
            \<and> (\<forall>out \<in> set (node_outputs (makeNode R p r d)). ratePerMin out = 0))"
  using assms by (auto simp: outputRatePerMin_def makeNode_def Let_def split: option.splits)

theorem makeNode_zero_rate_witness:
  "outputRatePerMin \<lparr> recipeId = ''R1'', building = ''Assembler'', timeSec = 2,
        inputs = [\<lparr> name = ''Iron'', qtyPerCycle = 2 \<rparr>],
        outputs = [\<lparr> name = ''Gear'', qtyPerCycle = 1 \<rparr>] \<rparr> ''Plate'' = 0
   \<and> runsPerMin (makeNode \<lparr> recipeId = ''R1'', building = ''Assembler'', timeSec = 2,
        inputs = [\<lparr> name = ''Iron'', qtyPerCycle = 2 \<rparr>],
        outputs = [\<lparr> name = ''Gear'', qtyPerCycle = 1 \<rparr>] \<rparr> ''Plate'' 60 0) = 0
   \<and> map ratePerMin (node_inputs (makeNode \<lparr> recipeId = ''R1'', building = ''Assembler'', timeSec = 2,
        inputs = [\<lparr> name = ''Iron'', qtyPerCycle = 2 \<rparr>],
        outputs = [\<lparr> name = ''Gear'', qtyPerCycle = 1 \<rparr>] \<rparr> ''Plate'' 60 0)) = [0]
   \<and> map ratePerMin (node_outputs (makeNode \<lparr> recipeId = ''R1'', building = ''Assembler'', timeSec = 2,
        inputs = [\<lparr> name = ''Iron'', qtyPerCycle = 2 \<rparr>],
        outputs = [\<lparr> name = ''Gear'', qtyPerCycle = 1 \<rparr>] \<rparr> ''Plate'' 60 0)) = [0]"
  using makeNode_zero_rate [of
      "\<lparr> recipeId = ''R1'', building = ''Assembler'', timeSec = 2,
        inputs = [\<lparr> name = ''Iron'', qtyPerCycle = 2 \<rparr>],
        outputs = [\<lparr> name = ''Gear'', qtyPerCycle = 1 \<rparr>] \<rparr>" "''Plate''" 60 0]
  by (simp add: outputRatePerMin_def makeNode_def trim_def toLowerCase_def toLowerCase_char_def
      is_space_def)

section \<open>Preference resolution and the index\<close>

lemma recipes_for_index_push:
  "recipes_for (index_push acc key r) p = recipes_for acc p @ (if p = key then [r] else [])"
  by (auto simp: recipes_for_def index_push_def update_conv map_add_def split: option.splits)

lemma recipes_for_outputs:
  "recipes_for (foldl (\<lambda>acc out. index_push acc (trim (name out)) r) acc outs) p
   = recipes_for acc p @ map (\<lambda>_. r) (filter (\<lambda>out. trim (name out) = p) outs)"
  by (induction outs arbitrary: acc) (auto simp: recipes_for_index_push)

lemma recipes_for_recipes:
  "recipes_for (foldl (\<lambda>acc r. foldl (\<lambda>acc out. index_push acc (trim (name out)) r) acc (outputs r)) acc rs) p
   = recipes_for acc p @ producers rs p"
  by (induction rs arbitrary: acc) (auto simp: recipes_for_outputs producers_def)

lemma recipes_for_PRODUCT_INDEX: "recipes_for (PRODUCT_INDEX RECIPES) p = producers RECIPES p"
  by (simp add: PRODUCT_INDEX_def recipes_for_recipes) (simp add: recipes_for_def)

lemma index_push_nonempty:
  "\<forall>p. map_of acc p \<noteq> Some [] \<Longrightarrow> map_of (index_push acc key r) p \<noteq> Some []"
  by (auto simp: index_push_def update_conv map_add_def split: option.splits)

lemma outputs_nonempty:
  "\<forall>p. map_of acc p \<noteq> Some [] \<Longrightarrow>
   map_of (foldl (\<lambda>acc out. index_push acc (trim (name out)) r) acc outs) p \<noteq> Some []"
  by (induction outs arbitrary: acc p) (auto simp: index_push_nonempty)

lemma recipes_nonempty:
  "\<forall>p. map_of acc p \<noteq> Some [] \<Longrightarrow>
   map_of (foldl (\<lambda>acc r. foldl (\<lambda>acc out. index_push acc (trim (name out)) r) acc (outputs r)) acc rs) p \<noteq> Some []"
  by (induction rs arbitrary: acc p) (auto simp: outputs_nonempty)

lemma PRODUCT_INDEX_nonempty: "map_of (PRODUCT_INDEX RECIPES) p \<noteq> Some []"
  by (simp add: PRODUCT_INDEX_def recipes_nonempty)

lemma PRODUCT_INDEX_absent:
  "map_of (PRODUCT_INDEX RECIPES) p = None \<longleftrightarrow> producers RECIPES p = []"
  using recipes_for_PRODUCT_INDEX [of RECIPES p] PRODUCT_INDEX_nonempty [of RECIPES p]
  by (auto simp: recipes_for_def split: option.splits)

lemma find_when_given:
  "find_when arg P list = (case given arg of None \<Rightarrow> None | Some x \<Rightarrow> find (P x) list)"
  by (simp add: find_when_def given_def split: option.splits)

lemma pick_None_iff:
  "pickRecipeWithPrefs idx product e pb parb = None \<longleftrightarrow> recipes_for idx product = []"
  by (auto simp: pickRecipeWithPrefs_def Let_def find_when_def find_None_iff
      split: option.splits list.splits)

text \<open>
  C5 (as amended). Recipe resolution is the specification's order (explicit recipe, parent
  building, sticky building, catalog order; first match wins) applied to the arguments that
  are given, where an empty string counts as not given; it returns nothing exactly when
  the product has no recipe list, and in the index built from the catalog that list is the
  list of the catalog's recipes with the product among their outputs, in catalog order.
\<close>

theorem pickRecipeWithPrefs_order:
  "pickRecipeWithPrefs idx product explicitRecipe preferredBuilding parentBuilding
     = pickRecipe_spec (recipes_for idx product) (given explicitRecipe) (given preferredBuilding)
         (given parentBuilding)
   \<and> (pickRecipeWithPrefs idx product explicitRecipe preferredBuilding parentBuilding = None
        \<longleftrightarrow> recipes_for idx product = [])
   \<and> recipes_for (PRODUCT_INDEX RECIPES) product = producers RECIPES product
   \<and> (map_of (PRODUCT_INDEX RECIPES) product = None \<longleftrightarrow> producers RECIPES product = [])"
proof -
  have "pickRecipeWithPrefs idx product explicitRecipe preferredBuilding parentBuilding
     = pickRecipe_spec (recipes_for idx product) (given explicitRecipe) (given preferredBuilding)
         (given parentBuilding)"
    unfolding pickRecipeWithPrefs_def pickRecipe_spec_def find_when_given Let_def ..
  then show ?thesis
    using pick_None_iff [of idx product explicitRecipe preferredBuilding parentBuilding]
      recipes_for_PRODUCT_INDEX [of RECIPES product] PRODUCT_INDEX_absent [of RECIPES product]
    by blast
qed

lemma Plate_index: "PRODUCT_INDEX [Plate_Smelter, Plate_Unnamed] = [(''Plate'', [Plate_Smelter, Plate_Unnamed])]"
  by (simp add: PRODUCT_INDEX_def Plate_Smelter_def Plate_Unnamed_def index_push_def trim_def is_space_def)

theorem pickRecipeWithPrefs_order_witness:
  "pickRecipeWithPrefs (PRODUCT_INDEX [Plate_Smelter, Plate_Unnamed]) ''Plate'' (Some ''P2'') None (Some ''Smelter'')
     = Some Plate_Unnamed
   \<and> pickRecipeWithPrefs (PRODUCT_INDEX [Plate_Smelter, Plate_Unnamed]) ''Ore'' None None None = None
   \<and> producers [Plate_Smelter, Plate_Unnamed] ''Plate'' = [Plate_Smelter, Plate_Unnamed]"
  using pickRecipeWithPrefs_order [of "PRODUCT_INDEX [Plate_Smelter, Plate_Unnamed]" "''Plate''"
      "Some ''P2''" None "Some ''Smelter''" "[Plate_Smelter, Plate_Unnamed]"]
    pickRecipeWithPrefs_order [of "PRODUCT_INDEX [Plate_Smelter, Plate_Unnamed]" "''Ore''"
      None None None "[Plate_Smelter, Plate_Unnamed]"]
  by (simp add: Plate_index recipes_for_def pickRecipe_spec_def given_def)
     (simp add: Plate_Smelter_def Plate_Unnamed_def)

text \<open>
  C5 (as stated) fails for a parent whose building is the empty string: the second rule
  would pick the recipe whose building is empty as well, the code skips the rule.
\<close>

theorem pickRecipeWithPrefs_counterexample:
  "pickRecipeWithPrefs (PRODUCT_INDEX [Plate_Smelter, Plate_Unnamed]) ''Plate'' None None (Some '''')
     = Some Plate_Smelter
   \<and> pickRecipe_spec (recipes_for (PRODUCT_INDEX [Plate_Smelter, Plate_Unnamed]) ''Plate'') None None (Some '''')
     = Some Plate_Unnamed
   \<and> Plate_Smelter \<noteq> Plate_Unnamed"
  by (simp add: Plate_index recipes_for_def pickRecipe_spec_def pickRecipeWithPrefs_def find_when_def)
     (simp add: Plate_Smelter_def Plate_Unnamed_def)

section \<open>The expansion controller: recipe swap and stale ids\<close>

lemma build_keeps [simp]:
  "targets (build idx s) = targets s"
  "choicesRecipe (build idx s) = choicesRecipe s"
  "choicesBuilding (build idx s) = choicesBuilding s"
  "expandedByNode (build idx s) = expandedByNode s"
  by (simp_all add: build_def Let_def)

lemma budget_build [simp]: "budget (build idx s) = budget s"
  by (simp add: budget_def fun_eq_iff)

text \<open>
  C10. A swap to a recipe id that no recipe of the node's product carries is carried out:
  the sticky recipe choice is overwritten with that id, the budget of the old node id is
  deleted (a positive one is merged into the new id first), and the building preference is
  kept. Resolution of the product with the new choice is then the specification's order
  without an explicit recipe: the first recipe with the parent's building, else the first
  with the sticky building, else the first of the list.
\<close>

theorem swapNodeRecipe_unproducible:
  assumes "find (\<lambda>n. node_id n = nodeId) (graphNodes s) = Some node"
    and "find (\<lambda>r. recipeId r = rid) (recipes_for idx (node_product node)) = None"
  shows "choicesRecipe (swapNodeRecipe idx nodeId rid s) = (choicesRecipe s)(node_product node \<mapsto> rid)
       \<and> choicesBuilding (swapNodeRecipe idx nodeId rid s) = choicesBuilding s
       \<and> expandedByNode (swapNodeRecipe idx nodeId rid s)
           = (if 0 < budget s nodeId
              then (expandedByNode s)(nodeIdFor (node_product node) rid \<mapsto>
                     max (budget s nodeId) (budget s (nodeIdFor (node_product node) rid)))
              else expandedByNode s)(nodeId := None)
       \<and> pickRecipeWithPrefs idx (node_product node)
             (choicesRecipe (swapNodeRecipe idx nodeId rid s) (node_product node)) preferredBuilding parentBuilding
           = pickRecipe_spec (recipes_for idx (node_product node)) None
               (given preferredBuilding) (given parentBuilding)"
proof -
  have "pickRecipeWithPrefs idx (node_product node) (Some rid) preferredBuilding parentBuilding
        = pickRecipe_spec (recipes_for idx (node_product node)) None
               (given preferredBuilding) (given parentBuilding)"
  proof -
    have a: "pickRecipeWithPrefs idx (node_product node) (Some rid) preferredBuilding parentBuilding
        = pickRecipe_spec (recipes_for idx (node_product node)) (given (Some rid))
               (given preferredBuilding) (given parentBuilding)"
      unfolding pickRecipeWithPrefs_def pickRecipe_spec_def find_when_given Let_def ..
    have b: "(case given (Some rid) of None \<Rightarrow> None
              | Some e \<Rightarrow> find (\<lambda>x. recipeId x = e) (recipes_for idx (node_product node))) = None"
      using assms(2) by (simp add: given_def)
    show ?thesis
      unfolding a unfolding pickRecipe_spec_def b by simp
  qed
  then show ?thesis
    using assms by (simp add: swapNodeRecipe_def Let_def)
qed


lemmas engine_defs = build_def baseline_def baseline_target_def baseline_input_def ensureNode_def
  pickRecipeWithPrefs_def find_when_def recipes_for_def makeNode_def outputRatePerMin_def
  nodeIdFor_def connect_def digits.simps seed_def seed_node_def budget_def expand_input.simps
  computeTotals_def add_node_def add_raw_def add_byproduct_def add_to_def r2_def
  trim_def toLowerCase_def toLowerCase_char_def is_space_def Let_def
  PRODUCT_INDEX_def index_push_def planner_def want_def

lemma Gear_index: "PRODUCT_INDEX [Gear_R1] = [(''Gear'', [Gear_R1])]"
  by (simp add: engine_defs Gear_R1_def)

lemma Gear_graph:
  "graphNodes (build (PRODUCT_INDEX [Gear_R1]) (planner [want ''Gear'' 60] [''Gear::R1'' \<mapsto> 2]))
   = [makeNode Gear_R1 ''Gear'' 60 0]"
  unfolding Gear_index by (simp add: engine_defs Gear_R1_def)

lemma Gears_index: "PRODUCT_INDEX [Gear_R1, Gear_R2] = [(''Gear'', [Gear_R1, Gear_R2])]"
  by (simp add: engine_defs Gear_R1_def Gear_R2_def)

lemma press_store_nodes:
  "graphNodes (build (PRODUCT_INDEX [Gear_R1, Gear_R2]) press_store) = [makeNode Gear_R2 ''Gear'' 60 0]"
  unfolding Gears_index by (simp add: engine_defs press_store_def Gear_R1_def Gear_R2_def)

theorem swapNodeRecipe_unproducible_witness:
  "choicesRecipe (swapNodeRecipe (PRODUCT_INDEX [Gear_R1, Gear_R2]) ''Gear::R2'' ''R9''
      (build (PRODUCT_INDEX [Gear_R1, Gear_R2]) press_store)) ''Gear'' = Some ''R9''
   \<and> choicesBuilding (swapNodeRecipe (PRODUCT_INDEX [Gear_R1, Gear_R2]) ''Gear::R2'' ''R9''
      (build (PRODUCT_INDEX [Gear_R1, Gear_R2]) press_store)) ''Gear'' = Some ''Press''
   \<and> expandedByNode (swapNodeRecipe (PRODUCT_INDEX [Gear_R1, Gear_R2]) ''Gear::R2'' ''R9''
      (build (PRODUCT_INDEX [Gear_R1, Gear_R2]) press_store)) ''Gear::R2'' = None
   \<and> expandedByNode (swapNodeRecipe (PRODUCT_INDEX [Gear_R1, Gear_R2]) ''Gear::R2'' ''R9''
      (build (PRODUCT_INDEX [Gear_R1, Gear_R2]) press_store)) ''Gear::R9'' = Some 2
   \<and> pickRecipeWithPrefs (PRODUCT_INDEX [Gear_R1, Gear_R2]) ''Gear'' (Some ''R9'') (Some ''Press'') None
       = Some Gear_R2
   \<and> pickRecipeWithPrefs (PRODUCT_INDEX [Gear_R1, Gear_R2]) ''Gear'' (Some ''R9'')
         (Some ''Press'') (Some ''Assembler'')
       = Some Gear_R1
   \<and> Gear_R1 \<noteq> Gear_R2"
  using swapNodeRecipe_unproducible [of "''Gear::R2''"
      "build (PRODUCT_INDEX [Gear_R1, Gear_R2]) press_store"
      "makeNode Gear_R2 ''Gear'' 60 0" "''R9''" "PRODUCT_INDEX [Gear_R1, Gear_R2]"
      "Some ''Press''" None]
    swapNodeRecipe_unproducible [of "''Gear::R2''"
      "build (PRODUCT_INDEX [Gear_R1, Gear_R2]) press_store"
      "makeNode Gear_R2 ''Gear'' 60 0" "''R9''" "PRODUCT_INDEX [Gear_R1, Gear_R2]"
      "Some ''Press''" "Some ''Assembler''"]
  unfolding press_store_nodes
  by (simp add: Gears_index recipes_for_def pickRecipe_spec_def given_def)
     (simp add: engine_defs press_store_def Gear_R1_def Gear_R2_def)

text \<open>
  C9 at a node id that is not in the graph: \<open>swapNodeRecipe\<close> leaves the budgets as
  they are, \<open>expandNodeOnce\<close> stores a budget of 1 under the stale id.
\<close>

theorem expandNodeOnce_stale_id:
  "find (\<lambda>n. node_id n = ''Ghost::R9'')
      (graphNodes (build (PRODUCT_INDEX [Gear_R1]) (planner [want ''Gear'' 60] Map.empty))) = None
   \<and> expandedByNode (build (PRODUCT_INDEX [Gear_R1]) (planner [want ''Gear'' 60] Map.empty)) ''Ghost::R9'' = None
   \<and> expandedByNode (expandNodeOnce (PRODUCT_INDEX [Gear_R1]) ''Ghost::R9''
        (build (PRODUCT_INDEX [Gear_R1]) (planner [want ''Gear'' 60] Map.empty))) ''Ghost::R9'' = Some 1
   \<and> expandedByNode (expandBranchBy (PRODUCT_INDEX [Gear_R1]) ''Ghost::R9'' 3
        (build (PRODUCT_INDEX [Gear_R1]) (planner [want ''Gear'' 60] Map.empty))) ''Ghost::R9'' = Some 3
   \<and> swapNodeRecipe (PRODUCT_INDEX [Gear_R1]) ''Ghost::R9'' ''R1''
        (build (PRODUCT_INDEX [Gear_R1]) (planner [want ''Gear'' 60] Map.empty))
       = build (PRODUCT_INDEX [Gear_R1]) (planner [want ''Gear'' 60] Map.empty)"
proof -
  have g: "graphNodes (build (PRODUCT_INDEX [Gear_R1]) (planner [want ''Gear'' 60] Map.empty))
           = [makeNode Gear_R1 ''Gear'' 60 0]"
    unfolding Gear_index by (simp add: engine_defs Gear_R1_def)
  have f: "find (\<lambda>n. node_id n = ''Ghost::R9'')
      (graphNodes (build (PRODUCT_INDEX [Gear_R1]) (planner [want ''Gear'' 60] Map.empty))) = None"
    unfolding g by (simp add: nodeIdFor_def Gear_R1_def)
  show ?thesis
    unfolding swapNodeRecipe_def f
    by (simp add: expandNodeOnce_def expandBranchBy_def budget_def planner_def)
qed

section \<open>The queue loop\<close>

lemmas factory_defs = factory_def Machine_M1_def Gear_G1_def Frame_F1_def Plate_P1_def factory_store_def

lemma factory_index:
  "PRODUCT_INDEX factory = [(''Machine'', [Machine_M1]), (''Gear'', [Gear_G1]), (''Frame'', [Frame_F1]), (''Plate'', [Plate_P1])]"
  by (simp add: engine_defs factory_defs)

lemma expand_input_child:
  assumes "map_of idx (io_name i) \<noteq> None"
    and "ensureNode idx s (io_name i) (ratePerMin i) (node_depth parent + 1)
           (Some (node_building parent)) b = (Some child, b')"
  shows "snd (expand_input idx s parent effParent i (b, bestRem, queue))
         = (let allowance = max (effParent - 1) (budget s (node_id child)) in
            if 0 < allowance \<and> (\<forall>prev. bestRem (node_id child) = Some prev \<longrightarrow> prev < allowance)
            then (bestRem(node_id child \<mapsto> allowance), queue @ [(node_id child, allowance)])
            else (bestRem, queue))"
  using assms by (cases "bestRem (node_id child)") (auto simp: expand_input.simps Let_def)

lemma hop_relaxed_iff:
  "hop_relaxed idx s ns es best n a i \<longleftrightarrow>
     (map_of idx (io_name i) \<noteq> None \<longrightarrow>
      (\<forall>rc. pickRecipeWithPrefs idx (io_name i) (choicesRecipe s (io_name i))
               (choicesBuilding s (io_name i)) (Some (node_building n)) = Some rc \<longrightarrow>
        (\<exists>c\<in>set ns. node_id c = nodeIdFor (io_name i) (recipeId rc)
           \<and> (\<exists>e\<in>set es. source e = node_id n \<and> target e = node_id c)
           \<and> max (max a (budget s (node_id n)) - 1) (budget s (node_id c))
               \<le> max 0 (bestv best (node_id c)))))"
proof -
  have *: "(let allowance = max (max a (stored_budget s (node_id n)) - 1) (stored_budget s (node_id c))
            in allowance \<le> 0 \<or> (case best (node_id c) of None \<Rightarrow> False | Some v \<Rightarrow> allowance \<le> v))
         \<longleftrightarrow> max (max a (budget s (node_id n)) - 1) (budget s (node_id c)) \<le> max 0 (bestv best (node_id c))"
    for c
    by (cases "best (node_id c)") (auto simp: Let_def budget_def bestv_def)
  show ?thesis
    unfolding hop_relaxed_def list_ex_iff *
    by (auto split: option.splits)
qed

lemma hop_relaxed_mono:
  assumes "set ns \<subseteq> set ns'" and "set es \<subseteq> set es'" and "\<forall>k. bestv best k \<le> bestv best' k"
    and "hop_relaxed idx s ns es best n a i"
  shows "hop_relaxed idx s ns' es' best' n a i"
  unfolding hop_relaxed_iff
proof (intro impI allI)
  fix rc
  assume c: "map_of idx (io_name i) \<noteq> None"
    and p: "pickRecipeWithPrefs idx (io_name i) (choicesRecipe s (io_name i))
               (choicesBuilding s (io_name i)) (Some (node_building n)) = Some rc"
  from assms(4) [unfolded hop_relaxed_iff] c p obtain c e where
    ce: "c \<in> set ns" "node_id c = nodeIdFor (io_name i) (recipeId rc)"
      "e \<in> set es" "source e = node_id n" "target e = node_id c"
      "max (max a (budget s (node_id n)) - 1) (budget s (node_id c)) \<le> max 0 (bestv best (node_id c))"
    by blast
  from ce(6) assms(3) have "max (max a (budget s (node_id n)) - 1) (budget s (node_id c))
      \<le> max 0 (bestv best' (node_id c))"
    by (smt (verit, best))
  with ce(1-5) assms(1,2)
  show "\<exists>c\<in>set ns'. node_id c = nodeIdFor (io_name i) (recipeId rc)
           \<and> (\<exists>e\<in>set es'. source e = node_id n \<and> target e = node_id c)
           \<and> max (max a (budget s (node_id n)) - 1) (budget s (node_id c))
               \<le> max 0 (bestv best' (node_id c))"
    by blast
qed

lemma expand_input_child_cases:
  assumes wf: "wf_build b"
  obtains (skip) "expand_input idx s parent eff i (b, best, q) = (b, best, q)"
      "map_of idx (io_name i) = None
       \<or> pickRecipeWithPrefs idx (io_name i) (choicesRecipe s (io_name i))
               (choicesBuilding s (io_name i)) (Some (node_building parent)) = None"
  | (child) rc c b' where
      "map_of idx (io_name i) \<noteq> None"
      "pickRecipeWithPrefs idx (io_name i) (choicesRecipe s (io_name i))
               (choicesBuilding s (io_name i)) (Some (node_building parent)) = Some rc"
      "node_id c = nodeIdFor (io_name i) (recipeId rc)"
      "wf_build b'" "grows b b'" "c \<in> set (nodes b')" "set (nodes b') \<subseteq> insert c (set (nodes b))"
      "\<exists>e\<in>set (edges b'). source e = node_id parent \<and> target e = node_id c"
      "c \<in> set (nodes b) \<or> node_id c \<notin> node_id ` set (nodes b)"
      "expand_input idx s parent eff i (b, best, q)
       = (if 0 < max (eff - 1) (budget s (node_id c))
             \<and> bestv best (node_id c) < max (eff - 1) (budget s (node_id c))
          then (b', best(node_id c \<mapsto> max (eff - 1) (budget s (node_id c))),
                q @ [(node_id c, max (eff - 1) (budget s (node_id c)))])
          else (b', best, q))"
proof (cases "map_of idx (io_name i) = None")
  case True
  then show ?thesis by (intro skip) (simp_all add: expand_input.simps)
next
  case craftable: False
  obtain res b1 where en: "ensureNode idx s (io_name i) (ratePerMin i) (node_depth parent + 1)
      (Some (node_building parent)) b = (res, b1)"
    by (cases "ensureNode idx s (io_name i) (ratePerMin i) (node_depth parent + 1)
      (Some (node_building parent)) b") auto
  note w = ensureNode_wf [OF wf en]
  have step: "expand_input idx s parent eff i (b, best, q)
       = (if 0 < max (eff - 1) (budget s (node_id c))
             \<and> bestv best (node_id c) < max (eff - 1) (budget s (node_id c))
          then (b', best(node_id c \<mapsto> max (eff - 1) (budget s (node_id c))),
                q @ [(node_id c, max (eff - 1) (budget s (node_id c)))])
          else (b', best, q))"
    if "res = Some c"
      and "b' = (if \<not> list_ex (\<lambda>e. source e = node_id parent \<and> target e = node_id c) (edges b1)
                          then connect parent c (io_name i) b1 else b1)" for c b'
    using craftable en that by (auto simp add: expand_input.simps Let_def bestv_def split: option.splits)
  have edge: "\<exists>e\<in>set (edges b'). source e = node_id parent \<and> target e = node_id c"
    if "b' = (if \<not> list_ex (\<lambda>e. source e = node_id parent \<and> target e = node_id c) (edges b1)
                          then connect parent c (io_name i) b1 else b1)" for c b'
    unfolding that by (auto simp: list_ex_iff connect_def)
  have wf': "wf_build b' \<and> grows b b' \<and> nodes b' = nodes b1"
    if "b' = (if \<not> list_ex (\<lambda>e. source e = node_id parent \<and> target e = node_id c) (edges b1)
                          then connect parent c (io_name i) b1 else b1)" for c b'
  proof -
    have "nodes (connect parent c (io_name i) b1) = nodes b1"
      by (simp add: connect_def)
    then show ?thesis
      unfolding that using w(1,2) grows_trans [OF w(2) grows_connect [of b1 parent c "io_name i"]]
      by simp
  qed
  from en show ?thesis
  proof (cases rule: ensureNode_cases)
    case none
    have "pickRecipeWithPrefs idx (io_name i) (choicesRecipe s (io_name i))
               (choicesBuilding s (io_name i)) (Some (node_building parent)) = None"
    proof (rule ccontr)
      assume "pickRecipeWithPrefs idx (io_name i) (choicesRecipe s (io_name i))
               (choicesBuilding s (io_name i)) (Some (node_building parent)) \<noteq> None"
      then obtain r where "pickRecipeWithPrefs idx (io_name i) (choicesRecipe s (io_name i))
               (choicesBuilding s (io_name i)) (Some (node_building parent)) = Some r"
        by blast
      from ensureNode_id [OF en wf this] none(1) show False
        by simp
    qed
    moreover have "expand_input idx s parent eff i (b, best, q) = (b, best, q)"
      using craftable en none by (simp add: expand_input.simps)
    ultimately show ?thesis
      by (intro skip) simp_all
  next
    case (found r n)
    define b' where "b' = (if \<not> list_ex (\<lambda>e. source e = node_id parent \<and> target e = node_id n) (edges b1)
                          then connect parent n (io_name i) b1 else b1)"
    from wf_buildD(1,2) [OF wf found(2)] have n: "n \<in> set (nodes b)" "node_id n = nodeIdFor (io_name i) (recipeId r)"
      by simp_all
    from wf' [OF b'_def] have w': "wf_build b'" "grows b b'" "nodes b' = nodes b1"
      by blast+
    show ?thesis
    proof (rule child [of r n b'])
      show "set (nodes b') \<subseteq> insert n (set (nodes b))"
        using w'(3) found(4) by auto
      show "n \<in> set (nodes b')"
        using w'(3) found(4) n(1) by simp
    qed (use craftable found n w' edge [OF b'_def] step [OF found(3) b'_def] in simp_all)
  next
    case (fresh r)
    let ?c = "makeNode r (io_name i) (ratePerMin i) (node_depth parent + 1)"
    define b' where "b' = (if \<not> list_ex (\<lambda>e. source e = node_id parent \<and> target e = node_id ?c) (edges b1)
                          then connect parent ?c (io_name i) b1 else b1)"
    from wf' [OF b'_def] have w': "wf_build b'" "grows b b'" "nodes b' = nodes b1"
      by blast+
    have new: "node_id ?c \<notin> node_id ` set (nodes b)"
    proof
      assume "node_id ?c \<in> node_id ` set (nodes b)"
      then obtain m where m: "m \<in> set (nodes b)" "node_id m = node_id ?c"
        by auto
      from wf_buildD(3) [OF wf m(1)] fresh(2) m(2) show False
        by simp
    qed
    show ?thesis
    proof (rule child [of r ?c b'])
      show "set (nodes b') \<subseteq> insert ?c (set (nodes b))"
        using w'(3) fresh(4) by auto
      show "?c \<in> set (nodes b')"
        using w'(3) fresh(4) by simp
      show "?c \<in> set (nodes b) \<or> node_id ?c \<notin> node_id ` set (nodes b)"
        using new by blast
      show "node_id ?c = nodeIdFor (io_name i) (recipeId r)"
        by simp
    qed (use craftable fresh w' edge [OF b'_def] step [OF fresh(3) b'_def] in simp_all)
  qed
qed


lemma relax_invD:
  assumes "relax_inv idx s X w"
  shows "wf_build (fst w)"
    and "fst (snd w) k = Some a \<Longrightarrow> 0 < a"
    and "fst (snd w) k = Some a \<Longrightarrow> k \<in> node_id ` set (nodes (fst w))"
    and "n \<in> set (nodes (fst w)) \<Longrightarrow> budget s (node_id n) \<le> max 0 (bestv (fst (snd w)) (node_id n))"
    and "n \<in> set (nodes (fst w)) \<Longrightarrow> fst (snd w) (node_id n) = Some a \<Longrightarrow>
         (node_id n, a) \<in> set (snd (snd w)) \<or> (node_id n, a) \<in> X
         \<or> (\<forall>i\<in>set (node_inputs n).
               hop_relaxed idx s (nodes (fst w)) (edges (fst w)) (fst (snd w)) n a i)"
  using assms unfolding relax_inv_def by blast+

lemma expand_input_relax:
  assumes inv: "relax_inv idx s X (b, best, q)" and par: "parent \<in> set (nodes b)"
  shows "relax_inv idx s X (expand_input idx s parent (max a (budget s (node_id parent))) i (b, best, q))
       \<and> hop_relaxed idx s
           (nodes (fst (expand_input idx s parent (max a (budget s (node_id parent))) i (b, best, q))))
           (edges (fst (expand_input idx s parent (max a (budget s (node_id parent))) i (b, best, q))))
           (fst (snd (expand_input idx s parent (max a (budget s (node_id parent))) i (b, best, q))))
           parent a i
       \<and> (\<forall>k. bestv best k \<le> bestv (fst (snd (expand_input idx s parent (max a (budget s (node_id parent))) i (b, best, q)))) k)"
proof -
  let ?eff = "max a (budget s (node_id parent))"
  note d = relax_invD [OF inv, simplified]
  from d(1) show ?thesis
  proof (cases rule: expand_input_child_cases [where idx = idx and s = s and parent = parent
        and eff = ?eff and i = i and best = best and q = q])
    case skip
    have "hop_relaxed idx s (nodes b) (edges b) best parent a i"
      unfolding hop_relaxed_iff using skip(2) by auto
    with inv show ?thesis
      by (simp add: skip(1))
  next
    case (child rc c b')
    let ?alw = "max (?eff - 1) (budget s (node_id c))"
    obtain best' q' where w': "expand_input idx s parent ?eff i (b, best, q) = (b', best', q')"
      and mono: "\<forall>k. bestv best k \<le> bestv best' k"
      and cb: "?alw \<le> max 0 (bestv best' (node_id c))"
      and sub: "set q \<subseteq> set q'"
      and pushed: "\<forall>k v. best' k = Some v \<longrightarrow> best k = Some v \<or> (k = node_id c \<and> (k, v) \<in> set q' \<and> 0 < v)"
    proof (cases "0 < ?alw \<and> bestv best (node_id c) < ?alw")
      case True
      show ?thesis
      proof (rule that [of "best(node_id c \<mapsto> ?alw)" "q @ [(node_id c, ?alw)]"])
        show "expand_input idx s parent ?eff i (b, best, q)
              = (b', best(node_id c \<mapsto> ?alw), q @ [(node_id c, ?alw)])"
          using child(10) True by simp
        show "\<forall>k. bestv best k \<le> bestv (best(node_id c \<mapsto> ?alw)) k"
          using True by (simp add: bestv_upd)
        show "?alw \<le> max 0 (bestv (best(node_id c \<mapsto> ?alw)) (node_id c))"
          by (simp add: bestv_upd)
        show "\<forall>k v. (best(node_id c \<mapsto> ?alw)) k = Some v \<longrightarrow>
                best k = Some v \<or> (k = node_id c \<and> (k, v) \<in> set (q @ [(node_id c, ?alw)]) \<and> 0 < v)"
          using True by auto
      qed auto
    next
      case False
      show ?thesis
      proof (rule that [of best q])
        show "expand_input idx s parent ?eff i (b, best, q) = (b', best, q)"
          using child(10) False by simp
        show "?alw \<le> max 0 (bestv best (node_id c))"
          using False by auto
      qed simp_all
    qed
    have nsub: "set (nodes b) \<subseteq> set (nodes b')" and esub: "set (edges b) \<subseteq> set (edges b')"
      using child(5) by (simp_all add: grows_def)
    have hop: "hop_relaxed idx s (nodes b') (edges b') best' parent a i"
      unfolding hop_relaxed_iff
    proof (intro impI allI)
      fix rc'
      assume "pickRecipeWithPrefs idx (io_name i) (choicesRecipe s (io_name i))
               (choicesBuilding s (io_name i)) (Some (node_building parent)) = Some rc'"
      with child(2) have rc': "rc' = rc"
        by simp
      from child(3,6,8) cb
      show "\<exists>c\<in>set (nodes b'). node_id c = nodeIdFor (io_name i) (recipeId rc')
           \<and> (\<exists>e\<in>set (edges b'). source e = node_id parent \<and> target e = node_id c)
           \<and> max (max a (budget s (node_id parent)) - 1) (budget s (node_id c))
               \<le> max 0 (bestv best' (node_id c))"
        unfolding rc' by blast
    qed
    have i2: "0 < v \<and> k \<in> node_id ` set (nodes b')" if "best' k = Some v" for k v
    proof -
      from pushed that consider "best k = Some v" | "k = node_id c" "0 < v"
        by blast
      then show ?thesis
      proof cases
        case 1
        from d(2,3) [OF 1] nsub show ?thesis by auto
      next
        case 2
        with child(6) show ?thesis by auto
      qed
    qed
    have i3: "budget s (node_id n) \<le> max 0 (bestv best' (node_id n))" if "n \<in> set (nodes b')" for n
    proof (cases "n = c")
      case True
      with cb show ?thesis by auto
    next
      case False
      with that child(7) have "n \<in> set (nodes b)" by auto
      from d(4) [OF this] mono show ?thesis
        by (smt (verit, best))
    qed
    have i4: "(node_id n, v) \<in> set q' \<or> (node_id n, v) \<in> X
         \<or> (\<forall>j\<in>set (node_inputs n). hop_relaxed idx s (nodes b') (edges b') best' n v j)"
      if n: "n \<in> set (nodes b')" and v: "best' (node_id n) = Some v" for n v
    proof -
      from pushed v consider "best (node_id n) = Some v" | "(node_id n, v) \<in> set q'"
        by blast
      then show ?thesis
      proof cases
        case 1
        from d(3) [OF 1] have "node_id n \<in> node_id ` set (nodes b)" .
        with n child(7,9) have "n \<in> set (nodes b)"
          by auto
        from d(5) [OF this 1] sub hop_relaxed_mono [OF nsub esub mono]
        show ?thesis
          by blast
      next
        case 2
        then show ?thesis by simp
      qed
    qed
    have "relax_inv idx s X (b', best', q')"
      unfolding relax_inv_def using child(4) i2 i3 i4 by simp
    with hop mono show ?thesis
      by (simp add: w')
  qed
qed

lemma expand_inputs_relax:
  "relax_inv idx s X w \<Longrightarrow> parent \<in> set (nodes (fst w)) \<Longrightarrow>
   relax_inv idx s X (fold (expand_input idx s parent (max a (budget s (node_id parent)))) ins w)
   \<and> (\<forall>i\<in>set ins. hop_relaxed idx s
         (nodes (fst (fold (expand_input idx s parent (max a (budget s (node_id parent)))) ins w)))
         (edges (fst (fold (expand_input idx s parent (max a (budget s (node_id parent)))) ins w)))
         (fst (snd (fold (expand_input idx s parent (max a (budget s (node_id parent)))) ins w)))
         parent a i)
   \<and> (\<forall>k. bestv (fst (snd w)) k
           \<le> bestv (fst (snd (fold (expand_input idx s parent (max a (budget s (node_id parent)))) ins w))) k)"
proof (induction ins arbitrary: w)
  case Nil
  then show ?case by simp
next
  case (Cons i ins)
  let ?f = "expand_input idx s parent (max a (budget s (node_id parent)))"
  obtain b best q where w: "w = (b, best, q)" by (cases w) auto
  let ?w1 = "?f i w"
  let ?w2 = "fold ?f ins ?w1"
  from Cons.prems have inv: "relax_inv idx s X (b, best, q)" and par: "parent \<in> set (nodes b)"
    by (simp_all add: w)
  from expand_input_relax [OF inv par, of a i]
  have 1: "relax_inv idx s X ?w1"
    and h: "hop_relaxed idx s (nodes (fst ?w1)) (edges (fst ?w1)) (fst (snd ?w1)) parent a i"
    and m: "\<forall>k. bestv (fst (snd w)) k \<le> bestv (fst (snd ?w1)) k"
    by (simp_all add: w)
  from expand_input_wf [OF relax_invD(1) [OF inv, simplified], of idx s parent "max a (budget s (node_id parent))" i best q]
  have g: "grows (fst w) (fst ?w1)"
    by (simp add: w)
  with par have par1: "parent \<in> set (nodes (fst ?w1))"
    by (auto simp: grows_def w)
  note ih = Cons.IH [OF 1 par1]
  from expand_inputs_wf [OF relax_invD(1) [OF 1], of idx s parent "max a (budget s (node_id parent))" ins]
  have g2: "set (nodes (fst ?w1)) \<subseteq> set (nodes (fst ?w2))" "set (edges (fst ?w1)) \<subseteq> set (edges (fst ?w2))"
    by (simp_all add: grows_def)
  from ih have m2: "\<forall>k. bestv (fst (snd ?w1)) k \<le> bestv (fst (snd ?w2)) k"
    by blast
  have "hop_relaxed idx s (nodes (fst ?w2)) (edges (fst ?w2)) (fst (snd ?w2)) parent a i"
    by (rule hop_relaxed_mono [OF g2 m2 h])
  moreover have "\<forall>k. bestv (fst (snd w)) k \<le> bestv (fst (snd ?w2)) k"
    using m m2 by (meson order_trans)
  ultimately show ?case
    using ih by simp
qed


lemma wf_build_same_id:
  assumes "wf_build b" and "n \<in> set (nodes b)" and "m \<in> set (nodes b)" and "node_id n = node_id m"
  shows "n = m"
proof -
  from wf_buildD(3) [OF assms(1,2)] have "map_of (byKey b) (node_id m) = Some n"
    unfolding assms(4) .
  with wf_buildD(3) [OF assms(1,3)] show ?thesis
    by (metis option.inject)
qed

lemma relax_inv_drop:
  assumes inv: "relax_inv idx s {} (b, best, (k, r) # q)"
    and no: "r \<le> 0 \<or> map_of (byId b) k = None"
  shows "relax_inv idx s {} (b, best, q)"
proof -
  note d = relax_invD [OF inv, simplified]
  have "(node_id n, a) \<in> set q
         \<or> (\<forall>i\<in>set (node_inputs n). hop_relaxed idx s (nodes b) (edges b) best n a i)"
    if n: "n \<in> set (nodes b)" and a: "best (node_id n) = Some a" for n a
  proof -
    have "(node_id n, a) \<noteq> (k, r)"
    proof
      assume eq: "(node_id n, a) = (k, r)"
      from d(2) [OF a] eq have "0 < r" by simp
      moreover from wf_buildD(3) [OF d(1) n] wf_buildD(6) [OF d(1)] eq
      have "map_of (byId b) k = Some n" by simp
      ultimately show False using no by simp
    qed
    with d(5) [OF n a] show ?thesis by auto
  qed
  then show ?thesis
    unfolding relax_inv_def using d(1,2,3,4) by simp
qed

lemma relax_inv_exempt:
  assumes inv: "relax_inv idx s {} (b, best, x # q)"
  shows "relax_inv idx s {x} (b, best, q)"
proof -
  note d = relax_invD [OF inv, simplified]
  have "(node_id n, a) \<in> set q \<or> (node_id n, a) = x
         \<or> (\<forall>i\<in>set (node_inputs n). hop_relaxed idx s (nodes b) (edges b) best n a i)"
    if n: "n \<in> set (nodes b)" and a: "best (node_id n) = Some a" for n a
    using d(5) [OF n a] by auto
  then show ?thesis
    unfolding relax_inv_def using d(1,2,3,4) by simp
qed

lemma bfs_relax:
  "relax_inv idx s {} w \<Longrightarrow> relax_inv idx s {} (fst (bfs idx s w), snd (bfs idx s w), [])"
proof (induction idx s w rule: bfs.induct)
  case (1 idx s b bestRem)
  then show ?case by simp
next
  case (2 idx s b bestRem nodeId remaining queue)
  note inv = "2.prems"
  show ?case
  proof (cases "remaining \<le> 0")
    case True
    from relax_inv_drop [OF inv] True have "relax_inv idx s {} (b, bestRem, queue)"
      by simp
    from "2.IH"(1) [OF True this] True show ?thesis
      by simp
  next
    case pos: False
    show ?thesis
    proof (cases "map_of (byId b) nodeId")
      case None
      from relax_inv_drop [OF inv] None have "relax_inv idx s {} (b, bestRem, queue)"
        by simp
      from "2.IH"(2) [OF pos None this] pos None show ?thesis
        by simp
    next
      case (Some parent)
      let ?w = "fold (expand_input idx s parent (max remaining (budget s (node_id parent))))
                  (node_inputs parent) (b, bestRem, queue)"
      note d = relax_invD [OF inv, simplified]
      from Some wf_buildD(6) [OF d(1)] have bk: "map_of (byKey b) nodeId = Some parent"
        by simp
      from wf_buildD(1,2) [OF d(1) bk] have par: "parent \<in> set (nodes b)" "node_id parent = nodeId"
        by simp_all
      have invX: "relax_inv idx s {(nodeId, remaining)} (b, bestRem, queue)"
        by (rule relax_inv_exempt [OF inv])
      from expand_inputs_relax [where w = "(b, bestRem, queue)" and a = remaining, OF invX, of parent "node_inputs parent"] par(1)
      have invw: "relax_inv idx s {(nodeId, remaining)} ?w"
        and hops: "\<forall>i\<in>set (node_inputs parent).
                     hop_relaxed idx s (nodes (fst ?w)) (edges (fst ?w)) (fst (snd ?w)) parent remaining i"
        by simp_all
      note dw = relax_invD [OF invw]
      from expand_inputs_wf [where w = "(b, bestRem, queue)", of idx s parent
          "max remaining (budget s (node_id parent))" "node_inputs parent"] d(1) par(1)
      have parw: "parent \<in> set (nodes (fst ?w))"
        by (auto simp: grows_def)
      have "(node_id n, a) \<in> set (snd (snd ?w))
            \<or> (\<forall>i\<in>set (node_inputs n). hop_relaxed idx s (nodes (fst ?w)) (edges (fst ?w)) (fst (snd ?w)) n a i)"
        if n: "n \<in> set (nodes (fst ?w))" and a: "fst (snd ?w) (node_id n) = Some a" for n a
      proof (cases "(node_id n, a) = (nodeId, remaining)")
        case True
        with par(2) have "node_id n = node_id parent" by simp
        from wf_build_same_id [OF dw(1) n parw this] True hops show ?thesis
          by simp
      next
        case False
        with dw(5) [OF n a] show ?thesis by auto
      qed
      then have "relax_inv idx s {} ?w"
        unfolding relax_inv_def using dw(1,2,3,4) by simp
      from "2.IH"(3) [OF pos Some this] pos Some show ?thesis
        by simp
    qed
  qed
qed

lemma seed_fold:
  "fold (seed_node s) ns (m, q)
   = ((\<lambda>k. if (\<exists>n\<in>set ns. node_id n = k) \<and> 0 < budget s k then Some (budget s k) else m k),
      q @ map (\<lambda>n. (node_id n, budget s (node_id n))) (filter (\<lambda>n. 0 < budget s (node_id n)) ns))"
proof (induction ns arbitrary: m q)
  case Nil
  show ?case by simp
next
  case (Cons n ns)
  have step: "seed_node s n (m, q)
      = (if 0 < budget s (node_id n)
         then (m(node_id n \<mapsto> budget s (node_id n)), q @ [(node_id n, budget s (node_id n))])
         else (m, q))"
    by (simp add: seed_node_def Let_def)
  show ?case
    unfolding List.fold_simps comp_apply step
    by (auto simp: Cons.IH fun_eq_iff)
qed

lemma seed_relax: "relax_inv idx s {} (baseline idx s, seed s (nodes (baseline idx s)))"
  unfolding relax_inv_def seed_def seed_fold
  using wf_baseline [of idx s]
  by (auto simp: bestv_def)

lemma build_relaxed:
  assumes ne: "targets s \<noteq> []"
  shows "relax_inv idx s {} (\<lparr> nodes = graphNodes (build idx s), edges = graphEdges (build idx s),
            byKey = byKey (fst (bfs idx s (baseline idx s, seed s (nodes (baseline idx s))))),
            byId = byId (fst (bfs idx s (baseline idx s, seed s (nodes (baseline idx s))))) \<rparr>,
          final_allowances idx s, [])"
proof -
  let ?r = "bfs idx s (baseline idx s, seed s (nodes (baseline idx s)))"
  have "\<lparr> nodes = graphNodes (build idx s), edges = graphEdges (build idx s),
            byKey = byKey (fst ?r), byId = byId (fst ?r) \<rparr> = fst ?r"
    using build_nodes [OF ne, of idx] by simp
  with bfs_relax [OF seed_relax, of idx s] show ?thesis
    by (simp add: final_allowances_def)
qed

text \<open>
  C2. A dequeued item with a positive remaining count is processed with the effective
  remaining count \<open>max remaining (the node's own stored budget)\<close>; for a craftable input
  whose child node is resolved, the child's allowance is
  \<open>max (effective - 1) (the child's own stored budget)\<close>, and the child is recorded and
  enqueued exactly when the allowance is positive and greater than every allowance recorded
  for it before. An item with no remaining count and a non-craftable input change nothing,
  and the loop returns on the empty queue; \<open>bfs\<close> is a total function, its termination
  proved above from the recorded allowances. When the loop of \<open>build\<close> has returned, no
  allowance can improve: every node of the built graph with a positive stored budget has a
  recorded allowance at least as large, and for every node with a recorded allowance \<open>a\<close>,
  \<open>a\<close> is positive and each craftable input has its child and an edge to it in the built
  graph, the child's inherited allowance being non-positive or at most the child's recorded
  allowance; allowances are recorded for nodes of the built graph only.
\<close>

theorem bfs_max_relaxation:
  "(0 < remaining \<longrightarrow> map_of (byId b) nodeId = Some parent \<longrightarrow>
      bfs idx s (b, bestRem, (nodeId, remaining) # queue)
      = bfs idx s (fold (expand_input idx s parent (max remaining (stored_budget s (node_id parent))))
                     (node_inputs parent) (b, bestRem, queue)))
   \<and> (map_of idx (io_name i) \<noteq> None \<longrightarrow>
        ensureNode idx s (io_name i) (ratePerMin i) (node_depth parent + 1)
           (Some (node_building parent)) b = (Some child, b') \<longrightarrow>
        snd (expand_input idx s parent effParent i (b, bestRem, queue))
         = (let allowance = max (effParent - 1) (stored_budget s (node_id child)) in
            if 0 < allowance \<and> (\<forall>prev. bestRem (node_id child) = Some prev \<longrightarrow> prev < allowance)
            then (bestRem(node_id child \<mapsto> allowance), queue @ [(node_id child, allowance)])
            else (bestRem, queue)))
   \<and> (map_of idx (io_name i) = None \<longrightarrow>
        expand_input idx s parent effParent i (b, bestRem, queue) = (b, bestRem, queue))
   \<and> (remaining \<le> 0 \<longrightarrow>
        bfs idx s (b, bestRem, (nodeId, remaining) # queue) = bfs idx s (b, bestRem, queue))
   \<and> bfs idx s (b, bestRem, []) = (b, bestRem)
   \<and> (targets s \<noteq> [] \<longrightarrow>
        (\<forall>n\<in>set (graphNodes (build idx s)).
           (\<forall>v. expandedByNode s (node_id n) = Some v \<longrightarrow> 0 < v \<longrightarrow>
                (\<exists>a. final_allowances idx s (node_id n) = Some a \<and> v \<le> a))
         \<and> (\<forall>a. final_allowances idx s (node_id n) = Some a \<longrightarrow>
                0 < a
              \<and> list_all (hop_relaxed idx s (graphNodes (build idx s)) (graphEdges (build idx s))
                            (final_allowances idx s) n a) (node_inputs n)))
      \<and> (\<forall>k a. final_allowances idx s k = Some a \<longrightarrow> k \<in> node_id ` set (graphNodes (build idx s))))"
proof -
  have closure: "(\<forall>n\<in>set (graphNodes (build idx s)).
           (\<forall>v. expandedByNode s (node_id n) = Some v \<longrightarrow> 0 < v \<longrightarrow>
                (\<exists>a. final_allowances idx s (node_id n) = Some a \<and> v \<le> a))
         \<and> (\<forall>a. final_allowances idx s (node_id n) = Some a \<longrightarrow>
                0 < a
              \<and> list_all (hop_relaxed idx s (graphNodes (build idx s)) (graphEdges (build idx s))
                            (final_allowances idx s) n a) (node_inputs n)))
      \<and> (\<forall>k a. final_allowances idx s k = Some a \<longrightarrow> k \<in> node_id ` set (graphNodes (build idx s)))"
    if ne: "targets s \<noteq> []"
  proof (intro conjI ballI allI impI)
    note d = relax_invD [OF build_relaxed [OF ne, of idx], simplified]
    show "k \<in> node_id ` set (graphNodes (build idx s))" if "final_allowances idx s k = Some a" for k a
      using d(3) [OF that] .
    fix n
    assume n: "n \<in> set (graphNodes (build idx s))"
    show "\<exists>a. final_allowances idx s (node_id n) = Some a \<and> v \<le> a"
      if "expandedByNode s (node_id n) = Some v" and "0 < v" for v
    proof (cases "final_allowances idx s (node_id n)")
      case None
      with d(4) [OF n] that show ?thesis
        by (simp add: budget_def bestv_def)
    next
      case (Some a)
      with d(4) [OF n] that show ?thesis
        by (simp add: budget_def bestv_def)
    qed
    fix a
    assume a: "final_allowances idx s (node_id n) = Some a"
    show "0 < a"
      using d(2) [OF a] .
    show "list_all (hop_relaxed idx s (graphNodes (build idx s)) (graphEdges (build idx s))
                            (final_allowances idx s) n a) (node_inputs n)"
      using d(5) [OF n a] by (simp add: list_all_iff)
  qed
  show ?thesis
    using expand_input_child [of idx i s parent b child b' effParent bestRem queue] closure
    by (simp add: expand_input.simps [of idx s parent effParent i b bestRem queue] budget_def)
qed

lemma floor_baseline:
  "baseline (PRODUCT_INDEX factory) floor_store
   = \<lparr> nodes = [makeNode Machine_M1 ''Machine'' 6 0, makeNode Gear_G1 ''Gear'' 1 1, makeNode Frame_F1 ''Frame'' 1 1],
       edges = [\<lparr> edge_id = ''Machine::M1=>Gear::G1#0'', source = ''Machine::M1'', target = ''Gear::G1'', label = ''Gear'' \<rparr>,
                \<lparr> edge_id = ''Machine::M1=>Frame::F1#1'', source = ''Machine::M1'', target = ''Frame::F1'', label = ''Frame'' \<rparr>],
       byKey = [(''Machine::M1'', makeNode Machine_M1 ''Machine'' 6 0), (''Gear::G1'', makeNode Gear_G1 ''Gear'' 1 1),
                (''Frame::F1'', makeNode Frame_F1 ''Frame'' 1 1)],
       byId = [(''Machine::M1'', makeNode Machine_M1 ''Machine'' 6 0), (''Gear::G1'', makeNode Gear_G1 ''Gear'' 1 1),
                (''Frame::F1'', makeNode Frame_F1 ''Frame'' 1 1)] \<rparr>"
  unfolding factory_index
  by (simp add: engine_defs factory_defs floor_store_def)

lemma floor_graph:
  "graphNodes (build (PRODUCT_INDEX factory) floor_store)
   = [makeNode Machine_M1 ''Machine'' 6 0, makeNode Gear_G1 ''Gear'' 1 1, makeNode Frame_F1 ''Frame'' 1 1,
      makeNode Plate_P1 ''Plate'' (1 / 15) 2]"
  "map (\<lambda>e. (source e, target e)) (graphEdges (build (PRODUCT_INDEX factory) floor_store))
   = [(''Machine::M1'', ''Gear::G1''), (''Machine::M1'', ''Frame::F1''), (''Gear::G1'', ''Plate::P1'')]"
  unfolding factory_index
  by (simp_all add: engine_defs factory_defs floor_store_def)

lemma floor_allowances:
  "final_allowances (PRODUCT_INDEX factory) floor_store
   = [''Machine::M1'' \<mapsto> 1, ''Gear::G1'' \<mapsto> 2, ''Plate::P1'' \<mapsto> 1]"
  unfolding final_allowances_def factory_index
  by (simp add: engine_defs factory_defs floor_store_def)

theorem bfs_max_relaxation_witness:
  "bfs (PRODUCT_INDEX factory) floor_store
       (baseline (PRODUCT_INDEX factory) floor_store, Map.empty, [(''Gear::G1'', 1)])
     = bfs (PRODUCT_INDEX factory) floor_store
         (fold (expand_input (PRODUCT_INDEX factory) floor_store (makeNode Gear_G1 ''Gear'' 1 1) 2)
            [\<lparr> io_name = ''Plate'', ratePerMin = 1 / 15 \<rparr>]
            (baseline (PRODUCT_INDEX factory) floor_store, Map.empty, []))
   \<and> snd (expand_input (PRODUCT_INDEX factory) floor_store (makeNode Machine_M1 ''Machine'' 6 0) 1
          \<lparr> io_name = ''Gear'', ratePerMin = 1 \<rparr>
          (baseline (PRODUCT_INDEX factory) floor_store, Map.empty, []))
     = ([''Gear::G1'' \<mapsto> 2], [(''Gear::G1'', 2)])
   \<and> final_allowances (PRODUCT_INDEX factory) floor_store
     = [''Machine::M1'' \<mapsto> 1, ''Gear::G1'' \<mapsto> 2, ''Plate::P1'' \<mapsto> 1]
   \<and> list_all (hop_relaxed (PRODUCT_INDEX factory) floor_store
         (graphNodes (build (PRODUCT_INDEX factory) floor_store))
         (graphEdges (build (PRODUCT_INDEX factory) floor_store))
         (final_allowances (PRODUCT_INDEX factory) floor_store) (makeNode Gear_G1 ''Gear'' 1 1) 2)
       (node_inputs (makeNode Gear_G1 ''Gear'' 1 1))
   \<and> map node_id (graphNodes (build (PRODUCT_INDEX factory) floor_store))
     = [''Machine::M1'', ''Gear::G1'', ''Frame::F1'', ''Plate::P1'']
   \<and> map (\<lambda>e. (source e, target e)) (graphEdges (build (PRODUCT_INDEX factory) floor_store))
     = [(''Machine::M1'', ''Gear::G1''), (''Machine::M1'', ''Frame::F1''), (''Gear::G1'', ''Plate::P1'')]"
proof -
  let ?I = "PRODUCT_INDEX factory"
  let ?B = "baseline ?I floor_store"
  let ?M = "makeNode Machine_M1 ''Machine'' 6 0"
  let ?G = "makeNode Gear_G1 ''Gear'' 1 1"
  have en: "ensureNode ?I floor_store ''Gear'' 1 1 (Some ''Assembler'') ?B = (Some ?G, ?B)"
    unfolding floor_baseline unfolding factory_index
    by (simp add: engine_defs factory_defs floor_store_def)
  have par: "map_of (byId ?B) ''Gear::G1'' = Some ?G"
    unfolding floor_baseline by simp
  have ins: "node_inputs ?G = [\<lparr> io_name = ''Plate'', ratePerMin = 1 / 15 \<rparr>]"
    by (simp add: engine_defs factory_defs)
  have bud: "expandedByNode floor_store ''Machine::M1'' = Some 1"
    "expandedByNode floor_store ''Gear::G1'' = Some 2"
    by (simp_all add: planner_def floor_store_def)
  have craft: "map_of ?I ''Gear'' \<noteq> None"
    unfolding factory_index by simp
  have more: "node_depth ?M = 0" "node_building ?M = ''Assembler''" "node_id ?G = ''Gear::G1''"
    by (simp_all add: engine_defs factory_defs)
  have ts: "targets floor_store \<noteq> []"
    by (simp add: floor_store_def planner_def)
  have mem: "?G \<in> set (graphNodes (build ?I floor_store))"
    unfolding floor_graph by simp
  have fa: "final_allowances ?I floor_store (node_id ?G) = Some 2"
    unfolding floor_allowances more by simp
  note t1 = bfs_max_relaxation [where remaining = 1 and b = ?B and nodeId = "''Gear::G1''"
        and parent = ?G and idx = ?I and s = floor_store and bestRem = Map.empty and queue = "[]",
        THEN conjunct1, rule_format, OF _ par]
  note t2 = bfs_max_relaxation [where b = ?B and parent = ?M and idx = ?I and s = floor_store
        and bestRem = Map.empty and queue = "[]" and i = "\<lparr> io_name = ''Gear'', ratePerMin = 1 \<rparr>"
        and child = ?G and b' = ?B and effParent = 1,
        THEN conjunct2, THEN conjunct1, rule_format]
  note t3 = bfs_max_relaxation [where idx = ?I and s = floor_store,
        THEN conjunct2, THEN conjunct2, THEN conjunct2, THEN conjunct2, THEN conjunct2, rule_format,
        OF ts, THEN conjunct1, rule_format, OF mem, THEN conjunct2, rule_format, OF fa, THEN conjunct2]
  have a: "bfs ?I floor_store (?B, Map.empty, [(''Gear::G1'', 1)])
     = bfs ?I floor_store
         (fold (expand_input ?I floor_store ?G 2) [\<lparr> io_name = ''Plate'', ratePerMin = 1 / 15 \<rparr>]
            (?B, Map.empty, []))"
    using t1 unfolding more ins bud by (simp del: bfs.simps)
  have b: "snd (expand_input ?I floor_store ?M 1 \<lparr> io_name = ''Gear'', ratePerMin = 1 \<rparr> (?B, Map.empty, []))
     = ([''Gear::G1'' \<mapsto> 2], [(''Gear::G1'', 2)])"
    using t2 craft en unfolding more bud by simp
  have g: "map node_id (graphNodes (build ?I floor_store))
     = [''Machine::M1'', ''Gear::G1'', ''Frame::F1'', ''Plate::P1'']"
    unfolding floor_graph by (simp add: nodeIdFor_def factory_defs)
  show ?thesis
    using a b t3 floor_allowances g floor_graph(2) by simp
qed

section \<open>The graph depends only on targets, preferences and budgets\<close>

lemma ensureNode_cong:
  assumes "choicesRecipe s' = choicesRecipe s" and "choicesBuilding s' = choicesBuilding s"
  shows "ensureNode idx s' = ensureNode idx s"
  using assms by (simp add: fun_eq_iff ensureNode_def)








section \<open>One node per product and recipe\<close>

lemma distinct_map_outer: "distinct (map (\<lambda>x. f (g x)) xs) \<Longrightarrow> distinct (map g xs)"
  by (induction xs) auto

text \<open>
  C4. The built node list holds at most one node per (product, recipe id) pair. A demand
  for a product whose resolved recipe already has a node returns that node and leaves the
  builder's variables as they are, whatever rate is demanded; only a demand for a pair
  without a node computes rates, from its own required rate. The nodes present at any
  point of the queue loop, and those of the baseline, are in the result as they are.
\<close>

theorem build_one_node_per_recipe:
  "distinct (map (\<lambda>n. (node_product n, node_recipeId n)) (graphNodes (build idx s)))
   \<and> (pickRecipeWithPrefs idx product (choicesRecipe s product) (choicesBuilding s product)
          parentBuilding = Some r \<longrightarrow>
        map_of (byKey b) (nodeIdFor product (recipeId r)) = Some n \<longrightarrow>
        ensureNode idx s product requiredRatePerMin depth parentBuilding b = (Some n, b))
   \<and> (pickRecipeWithPrefs idx product (choicesRecipe s product) (choicesBuilding s product)
          parentBuilding = Some r \<longrightarrow>
        map_of (byKey b) (nodeIdFor product (recipeId r)) = None \<longrightarrow>
        fst (ensureNode idx s product requiredRatePerMin depth parentBuilding b)
          = Some (makeNode r product requiredRatePerMin depth)
        \<and> nodes (snd (ensureNode idx s product requiredRatePerMin depth parentBuilding b))
          = nodes b @ [makeNode r product requiredRatePerMin depth])
   \<and> (wf_build b \<longrightarrow> set (nodes b) \<subseteq> set (nodes (fst (bfs idx s (b, bestRem, queue)))))
   \<and> (targets s \<noteq> [] \<longrightarrow> set (nodes (baseline idx s)) \<subseteq> set (graphNodes (build idx s)))"
proof -
  have "map (\<lambda>n. nodeIdFor (node_product n) (node_recipeId n)) (graphNodes (build idx s))
        = map node_id (graphNodes (build idx s))"
    using build_wf [of idx s] by (intro map_cong) auto
  then have "distinct (map (\<lambda>n. nodeIdFor (node_product n) (node_recipeId n)) (graphNodes (build idx s)))"
    using build_wf [of idx s] by metis
  then have "distinct (map (\<lambda>n. (node_product n, node_recipeId n)) (graphNodes (build idx s)))"
    using distinct_map_outer [of "\<lambda>p. nodeIdFor (fst p) (snd p)"
        "\<lambda>n. (node_product n, node_recipeId n)" "graphNodes (build idx s)"]
    by simp
  moreover have "wf_build b \<longrightarrow> set (nodes b) \<subseteq> set (nodes (fst (bfs idx s (b, bestRem, queue))))"
    using bfs_wf [of "(b, bestRem, queue)" idx s] by (simp add: grows_def)
  ultimately show ?thesis
    using build_grows [of s idx]
    by (simp add: ensureNode_found ensureNode_fresh)
qed


theorem build_one_node_per_recipe_witness:
  "map (\<lambda>n. (node_product n, node_recipeId n)) (graphNodes (build (PRODUCT_INDEX factory) factory_store))
     = [(''Machine'', ''M1''), (''Gear'', ''G1''), (''Frame'', ''F1''), (''Plate'', ''P1'')]
   \<and> map runsPerMin (graphNodes (build (PRODUCT_INDEX factory) factory_store)) = [1, 1 / 30, 1 / 12, 1 / 225]
   \<and> ensureNode (PRODUCT_INDEX factory) factory_store ''Plate'' (1 / 4) 2 (Some ''Welder'')
         \<lparr> nodes = [makeNode Plate_P1 ''Plate'' (1 / 15) 2], edges = [],
           byKey = [(''Plate::P1'', makeNode Plate_P1 ''Plate'' (1 / 15) 2)],
           byId = [(''Plate::P1'', makeNode Plate_P1 ''Plate'' (1 / 15) 2)] \<rparr>
       = (Some (makeNode Plate_P1 ''Plate'' (1 / 15) 2),
          \<lparr> nodes = [makeNode Plate_P1 ''Plate'' (1 / 15) 2], edges = [],
            byKey = [(''Plate::P1'', makeNode Plate_P1 ''Plate'' (1 / 15) 2)],
            byId = [(''Plate::P1'', makeNode Plate_P1 ''Plate'' (1 / 15) 2)] \<rparr>)"
proof -
  have pick: "pickRecipeWithPrefs (PRODUCT_INDEX factory) ''Plate'' (choicesRecipe factory_store ''Plate'')
                (choicesBuilding factory_store ''Plate'') (Some ''Welder'') = Some Plate_P1"
    unfolding factory_index by (simp add: engine_defs factory_defs)
  have key: "nodeIdFor ''Plate'' (recipeId Plate_P1) = ''Plate::P1''"
    by (simp add: nodeIdFor_def Plate_P1_def)
  have g: "map (\<lambda>n. (node_product n, node_recipeId n)) (graphNodes (build (PRODUCT_INDEX factory) factory_store))
     = [(''Machine'', ''M1''), (''Gear'', ''G1''), (''Frame'', ''F1''), (''Plate'', ''P1'')]"
    "map runsPerMin (graphNodes (build (PRODUCT_INDEX factory) factory_store)) = [1, 1 / 30, 1 / 12, 1 / 225]"
    unfolding factory_index by (simp_all add: engine_defs factory_defs)
  show ?thesis
    using build_one_node_per_recipe [where idx = "PRODUCT_INDEX factory" and s = factory_store
        and product = "''Plate''" and parentBuilding = "Some ''Welder''" and r = Plate_P1
        and requiredRatePerMin = "1 / 4" and depth = 2
        and n = "makeNode Plate_P1 ''Plate'' (1 / 15) 2"
        and b = "\<lparr> nodes = [makeNode Plate_P1 ''Plate'' (1 / 15) 2], edges = [],
           byKey = [(''Plate::P1'', makeNode Plate_P1 ''Plate'' (1 / 15) 2)],
           byId = [(''Plate::P1'', makeNode Plate_P1 ''Plate'' (1 / 15) 2)] \<rparr>"]
      pick
    by (simp add: key g)
qed

section \<open>Swapping a recipe and swapping it back\<close>








section \<open>Raw totals\<close>

lemma add_raw_apply:
  "add_raw idx i m k =
     (if map_of idx k = None \<and> io_name i = k then Some (stored m k + ratePerMin i) else m k)"
  by (simp add: add_raw_def add_to_def stored_def)

lemma stored_add_raw:
  "stored (add_raw idx i m) k =
     (if map_of idx k = None \<and> io_name i = k then stored m k + ratePerMin i else stored m k)"
  by (simp add: stored_def add_raw_apply)

lemma sum_absent:
  "k \<notin> io_name ` set ins \<Longrightarrow> (\<Sum>i\<leftarrow>filter (\<lambda>i. io_name i = k) ins. ratePerMin i) = 0"
  by (induction ins) auto

lemma sum_absent_nodes:
  "\<forall>n\<in>set ns. k \<notin> io_name ` set (node_inputs n) \<Longrightarrow>
   (\<Sum>n\<leftarrow>ns. \<Sum>i\<leftarrow>filter (\<lambda>i. io_name i = k) (node_inputs n). ratePerMin i) = 0"
  by (induction ns) (auto simp: sum_absent)

lemma fold_add_raw:
  "fold (add_raw idx) ins m k =
     (if map_of idx k = None \<and> k \<in> io_name ` set ins
      then Some (stored m k + (\<Sum>i\<leftarrow>filter (\<lambda>i. io_name i = k) ins. ratePerMin i))
      else m k)"
proof (induction ins arbitrary: m)
  case Nil
  then show ?case by simp
next
  case (Cons i ins)
  have "fold (add_raw idx) (i # ins) m k = fold (add_raw idx) ins (add_raw idx i m) k"
    by simp
  also have "\<dots> = (if map_of idx k = None \<and> k \<in> io_name ` set ins
      then Some (stored (add_raw idx i m) k + (\<Sum>i\<leftarrow>filter (\<lambda>i. io_name i = k) ins. ratePerMin i))
      else add_raw idx i m k)"
    by (rule Cons.IH)
  also have "\<dots> = (if map_of idx k = None \<and> k \<in> io_name ` set (i # ins)
      then Some (stored m k + (\<Sum>i\<leftarrow>filter (\<lambda>i. io_name i = k) (i # ins). ratePerMin i))
      else m k)"
    using sum_absent [of k ins] by (auto simp: stored_add_raw add_raw_apply)
  finally show ?case .
qed

lemma stored_fold_add_raw:
  "stored (fold (add_raw idx) ins m) k =
     (if map_of idx k = None
      then stored m k + (\<Sum>i\<leftarrow>filter (\<lambda>i. io_name i = k) ins. ratePerMin i)
      else stored m k)"
  using sum_absent [of k ins] by (simp add: stored_def [of "fold (add_raw idx) ins m"] fold_add_raw)
    (simp add: stored_def)

lemma add_node_fst: "fst (add_node idx n acc) = fold (add_raw idx) (node_inputs n) (fst acc)"
  by (simp add: add_node_def)

lemma fold_add_node_raw:
  "fst (fold (add_node idx) ns acc) k =
     (if map_of idx k = None \<and> (\<exists>n\<in>set ns. k \<in> io_name ` set (node_inputs n))
      then Some (stored (fst acc) k
                 + (\<Sum>n\<leftarrow>ns. \<Sum>i\<leftarrow>filter (\<lambda>i. io_name i = k) (node_inputs n). ratePerMin i))
      else fst acc k)"
proof (induction ns arbitrary: acc)
  case Nil
  then show ?case by simp
next
  case (Cons n ns)
  have "fst (fold (add_node idx) (n # ns) acc) k = fst (fold (add_node idx) ns (add_node idx n acc)) k"
    by simp
  also have "\<dots> = (if map_of idx k = None \<and> (\<exists>n\<in>set ns. k \<in> io_name ` set (node_inputs n))
      then Some (stored (fst (add_node idx n acc)) k
                 + (\<Sum>n\<leftarrow>ns. \<Sum>i\<leftarrow>filter (\<lambda>i. io_name i = k) (node_inputs n). ratePerMin i))
      else fst (add_node idx n acc) k)"
    by (rule Cons.IH)
  also have "\<dots> = (if map_of idx k = None \<and> (\<exists>n\<in>set (n # ns). k \<in> io_name ` set (node_inputs n))
      then Some (stored (fst acc) k
                 + (\<Sum>n\<leftarrow>n # ns. \<Sum>i\<leftarrow>filter (\<lambda>i. io_name i = k) (node_inputs n). ratePerMin i))
      else fst acc k)"
    using sum_absent [of k "node_inputs n"] sum_absent_nodes [of ns k]
    by (auto simp: add_node_fst stored_fold_add_raw fold_add_raw)
  finally show ?case .
qed

lemma computeTotals_raw:
  "raw (computeTotals idx ns) k =
     (if map_of idx k = None \<and> (\<exists>n\<in>set ns. k \<in> io_name ` set (node_inputs n))
      then Some (r2 (\<Sum>n\<leftarrow>ns. \<Sum>i\<leftarrow>filter (\<lambda>i. io_name i = k) (node_inputs n). ratePerMin i))
      else None)"
  by (simp add: computeTotals_def Let_def fold_add_node_raw stored_def)

lemma build_totals: "totals (build idx s) = computeTotals idx (graphNodes (build idx s))"
  by (simp add: build_def Let_def computeTotals_def)


lemma Gear_graph_60:
  "graphNodes (build (PRODUCT_INDEX [Gear_R1]) (planner [want ''Gear'' 60] Map.empty))
   = [makeNode Gear_R1 ''Gear'' 60 0]"
  unfolding Gear_index by (simp add: engine_defs Gear_R1_def)

lemma Gear_node_60:
  "runsPerMin (makeNode Gear_R1 ''Gear'' 60 0) = 2"
  "node_inputs (makeNode Gear_R1 ''Gear'' 60 0) = [\<lparr> io_name = ''Iron'', ratePerMin = 4 \<rparr>]"
  by (simp_all add: engine_defs Gear_R1_def)

text \<open>
  C6. In the totals of a built graph, a name has a raw entry exactly when it is absent from
  the index and is the name of an input of some node, and the entry is the sum of the
  rates of the inputs of that name over all nodes, rounded to two decimals. For the
  catalog with the one recipe R1 (1 Gear per 2 s from 2 Iron) and the target of 60 Gear per
  minute, the root runs 2 times per minute, draws 4 Iron, and the raw totals are Iron: 4.
\<close>

theorem build_totals_raw:
  "raw (totals (build idx s)) k =
     (if map_of idx k = None \<and> (\<exists>n\<in>set (graphNodes (build idx s)). k \<in> io_name ` set (node_inputs n))
      then Some (r2 (\<Sum>n\<leftarrow>graphNodes (build idx s).
                       \<Sum>i\<leftarrow>filter (\<lambda>i. io_name i = k) (node_inputs n). ratePerMin i))
      else None)
   \<and> map runsPerMin (graphNodes (build (PRODUCT_INDEX [Gear_R1]) (planner [want ''Gear'' 60] Map.empty))) = [2]
   \<and> map node_inputs (graphNodes (build (PRODUCT_INDEX [Gear_R1]) (planner [want ''Gear'' 60] Map.empty)))
       = [[\<lparr> io_name = ''Iron'', ratePerMin = 4 \<rparr>]]
   \<and> raw (totals (build (PRODUCT_INDEX [Gear_R1]) (planner [want ''Gear'' 60] Map.empty))) = [''Iron'' \<mapsto> 4]"
proof -
  have "raw (totals (build (PRODUCT_INDEX [Gear_R1]) (planner [want ''Gear'' 60] Map.empty))) k'
        = [''Iron'' \<mapsto> 4] k'" for k'
    unfolding build_totals computeTotals_raw Gear_graph_60
    by (simp add: Gear_node_60 Gear_index r2_def)
  then have "raw (totals (build (PRODUCT_INDEX [Gear_R1]) (planner [want ''Gear'' 60] Map.empty)))
             = [''Iron'' \<mapsto> 4]"
    by (rule ext)
  then show ?thesis
    unfolding build_totals computeTotals_raw Gear_graph_60
    by (simp add: Gear_node_60)
qed

theorem build_totals_raw_witness:
  "raw (totals (build (PRODUCT_INDEX [Gear_R1]) (planner [want ''Gear'' 50] Map.empty))) ''Iron'' = Some (333 / 100)
   \<and> raw (totals (build (PRODUCT_INDEX [Gear_R1]) (planner [want ''Gear'' 50] Map.empty))) ''Gear'' = None"
proof -
  have g: "graphNodes (build (PRODUCT_INDEX [Gear_R1]) (planner [want ''Gear'' 50] Map.empty))
           = [makeNode Gear_R1 ''Gear'' 50 0]"
    unfolding Gear_index by (simp add: engine_defs Gear_R1_def)
  have n: "node_inputs (makeNode Gear_R1 ''Gear'' 50 0) = [\<lparr> io_name = ''Iron'', ratePerMin = 10 / 3 \<rparr>]"
    by (simp add: engine_defs Gear_R1_def)
  show ?thesis
    using build_totals_raw [of "PRODUCT_INDEX [Gear_R1]" "planner [want ''Gear'' 50] Map.empty" "''Iron''"]
      build_totals_raw [of "PRODUCT_INDEX [Gear_R1]" "planner [want ''Gear'' 50] Map.empty" "''Gear''"]
    unfolding g by (simp add: n Gear_index r2_def)
qed

section \<open>The first upstream hop\<close>

lemma hop_visible_mono:
  assumes "set ns \<subseteq> set ns'" and "set es \<subseteq> set es'" and "hop_visible P idx s ns es parent i"
  shows "hop_visible P idx s ns' es' parent i"
  using assms unfolding hop_visible_def list_ex_iff
  by (auto split: option.splits if_splits)

lemma root_visible_mono:
  assumes "set ns \<subseteq> set ns'" and "set es \<subseteq> set es'" and "root_visible P idx s ns es rootNode"
  shows "root_visible P idx s ns' es' rootNode"
  using assms hop_visible_mono [OF assms(1,2)] unfolding root_visible_def list_ex_iff list_all_iff
  by blast

lemma ensureNode_nodes:
  assumes "ensureNode idx s product q d pb b = (res, b')"
  shows "nodes b' = nodes b \<or> (\<exists>r. nodes b' = nodes b @ [makeNode r product q d])"
  using assms by (cases rule: ensureNode_cases) auto

lemma edges_connect:
  "edges (connect p c l b) = edges b @ [\<lparr> edge_id = node_id p @ ''=>'' @ node_id c @ ''#'' @ digits (length (edges b)),
             source = node_id p, target = node_id c, label = l \<rparr>]"
  "nodes (connect p c l b) = nodes b"
  by (simp_all add: connect_def)

lemma baseline_input_hop:
  assumes wf: "wf_build b" and all: "\<forall>n\<in>set (nodes b). P n"
    and mk: "\<And>r p q. P (makeNode r p q 1)"
  shows "hop_visible P idx s (nodes (baseline_input idx s rootNode i b))
           (edges (baseline_input idx s rootNode i b)) rootNode i
       \<and> (\<forall>n\<in>set (nodes (baseline_input idx s rootNode i b)). P n)"
proof (cases "map_of idx (io_name i) = None")
  case True
  with all show ?thesis by (simp add: baseline_input_def hop_visible_def)
next
  case craftable: False
  obtain res b' where en: "ensureNode idx s (io_name i) (ratePerMin i) 1 (Some (node_building rootNode)) b = (res, b')"
    by (cases "ensureNode idx s (io_name i) (ratePerMin i) 1 (Some (node_building rootNode)) b") auto
  have all': "\<forall>n\<in>set (nodes b'). P n"
    using ensureNode_nodes [OF en] all mk by auto
  show ?thesis
  proof (cases "pickRecipeWithPrefs idx (io_name i) (choicesRecipe s (io_name i))
                  (choicesBuilding s (io_name i)) (Some (node_building rootNode))")
    case None
    from ensureNode_none [OF None, of "ratePerMin i" 1 b] en have "res = None" "b' = b"
      by simp_all
    then have "baseline_input idx s rootNode i b = b"
      using craftable en by (auto simp: baseline_input_def)
    with all None craftable show ?thesis
      by (simp add: hop_visible_def)
  next
    case (Some rc)
    from ensureNode_id [OF en wf Some] obtain child where
      res: "res = Some child" and cid: "node_id child = nodeIdFor (io_name i) (recipeId rc)"
      by blast
    have cin: "child \<in> set (nodes b')"
      using ensureNode_wf(3) [OF wf en res] .
    have bi: "baseline_input idx s rootNode i b = connect rootNode child (io_name i) b'"
      using craftable en res by (auto simp: baseline_input_def)
    have "hop_visible P idx s (nodes b') (edges (connect rootNode child (io_name i) b')) rootNode i"
      unfolding hop_visible_def list_ex_iff using craftable Some cin cid all'
      by (auto simp: edges_connect)
    with all' show ?thesis
      by (simp add: bi edges_connect)
  qed
qed

lemma baseline_inputs_hop:
  assumes mk: "\<And>r p q. P (makeNode r p q 1)"
  shows "wf_build b \<Longrightarrow> \<forall>n\<in>set (nodes b). P n \<Longrightarrow>
         (\<forall>i\<in>set ins. hop_visible P idx s (nodes (fold (baseline_input idx s rootNode) ins b))
                          (edges (fold (baseline_input idx s rootNode) ins b)) rootNode i)
       \<and> (\<forall>n\<in>set (nodes (fold (baseline_input idx s rootNode) ins b)). P n)"
proof (induction ins arbitrary: b)
  case Nil
  then show ?case by simp
next
  case (Cons i ins)
  let ?b1 = "baseline_input idx s rootNode i b"
  let ?b2 = "fold (baseline_input idx s rootNode) ins ?b1"
  note h = baseline_input_hop [OF Cons.prems mk, of idx s rootNode i]
  note w = baseline_input_wf [OF Cons.prems(1), of idx s rootNode i]
  from w have w1: "wf_build ?b1" by blast
  from h have a1: "\<forall>n\<in>set (nodes ?b1). P n" by blast
  note ih = Cons.IH [OF w1 a1]
  from baseline_inputs_wf [OF w1, of idx s rootNode ins]
  have g: "set (nodes ?b1) \<subseteq> set (nodes ?b2)" "set (edges ?b1) \<subseteq> set (edges ?b2)"
    by (simp_all add: grows_def)
  from h have "hop_visible P idx s (nodes ?b1) (edges ?b1) rootNode i" by blast
  then have "hop_visible P idx s (nodes ?b2) (edges ?b2) rootNode i"
    by (rule hop_visible_mono [OF g])
  with ih show ?case by simp
qed


lemma baseline_target_root:
  assumes wf: "wf_build b"
    and en: "ensureNode idx s (target_product t) (target_ratePerMin t) 0 None b = (Some rootNode, b')"
    and all: "\<forall>n\<in>set (nodes b'). P n" and mk: "\<And>r p q. P (makeNode r p q 1)"
  shows "root_visible P idx s (nodes (baseline_target idx s t b)) (edges (baseline_target idx s t b)) rootNode"
proof -
  let ?b2 = "fold (baseline_input idx s rootNode) (node_inputs rootNode) b'"
  have bt: "baseline_target idx s t b = ?b2"
    using en by (simp add: baseline_target_def)
  note w = ensureNode_wf [OF wf en]
  have "rootNode \<in> set (nodes b')"
    using w(3) by simp
  moreover from baseline_inputs_wf [OF w(1), of idx s rootNode "node_inputs rootNode"]
  have "set (nodes b') \<subseteq> set (nodes ?b2)"
    by (simp add: grows_def)
  ultimately have "rootNode \<in> set (nodes ?b2)"
    by blast
  with baseline_inputs_hop [OF mk w(1) all, of "node_inputs rootNode" idx s rootNode]
  show ?thesis
    unfolding bt root_visible_def list_ex_iff list_all_iff by blast
qed

lemma baseline_targets_root:
  assumes pick: "pickRecipeWithPrefs idx (target_product t) (choicesRecipe s (target_product t))
                   (choicesBuilding s (target_product t)) None = Some r"
  shows "wf_build b \<Longrightarrow> t \<in> set ts \<Longrightarrow>
         \<exists>rootNode. node_id rootNode = nodeIdFor (target_product t) (recipeId r)
           \<and> root_visible (\<lambda>_. True) idx s (nodes (fold (baseline_target idx s) ts b))
                (edges (fold (baseline_target idx s) ts b)) rootNode"
proof (induction ts arbitrary: b)
  case Nil
  then show ?case by simp
next
  case (Cons t' ts)
  let ?b1 = "baseline_target idx s t' b"
  let ?b2 = "fold (baseline_target idx s) ts ?b1"
  from baseline_target_wf [OF Cons.prems(1), of idx s t'] have w1: "wf_build ?b1"
    by blast
  show ?case
  proof (cases "t = t'")
    case True
    obtain res b' where en: "ensureNode idx s (target_product t) (target_ratePerMin t) 0 None b = (res, b')"
      by (cases "ensureNode idx s (target_product t) (target_ratePerMin t) 0 None b") auto
    from ensureNode_id [OF en Cons.prems(1) pick] obtain rootNode where
      res: "res = Some rootNode" and rid: "node_id rootNode = nodeIdFor (target_product t) (recipeId r)"
      by blast
    have "root_visible (\<lambda>_. True) idx s (nodes ?b1) (edges ?b1) rootNode"
      using baseline_target_root [OF Cons.prems(1), of idx s t rootNode b' "\<lambda>_. True"] en res True
      by simp
    moreover from baseline_targets_wf [OF w1, of idx s ts]
    have "set (nodes ?b1) \<subseteq> set (nodes ?b2)" "set (edges ?b1) \<subseteq> set (edges ?b2)"
      by (simp_all add: grows_def)
    ultimately have "root_visible (\<lambda>_. True) idx s (nodes ?b2) (edges ?b2) rootNode"
      using root_visible_mono by blast
    with rid show ?thesis
      by auto
  next
    case False
    with Cons.prems(2) have "t \<in> set ts" by simp
    from Cons.IH [OF w1 this] show ?thesis
      by simp
  qed
qed

lemma earlier_ids_fold:
  "earlier_ids idx s ts
   = map node_id (nodes (fold (baseline_target idx s) ts \<lparr> nodes = [], edges = [], byKey = [], byId = [] \<rparr>))"
proof -
  have e: "ensureNode idx (s\<lparr> targets := ts \<rparr>) = ensureNode idx s"
    by (rule ensureNode_cong) simp_all
  have bi: "baseline_input idx (s\<lparr> targets := ts \<rparr>) = baseline_input idx s"
    by (intro ext) (simp add: baseline_input_def e)
  have "baseline_target idx (s\<lparr> targets := ts \<rparr>) = baseline_target idx s"
    unfolding baseline_target_def [abs_def] e bi ..
  then show ?thesis
    by (simp add: earlier_ids_def baseline_def)
qed

lemma baseline_later_root:
  assumes pick: "pickRecipeWithPrefs idx (target_product t) (choicesRecipe s (target_product t))
                   (choicesBuilding s (target_product t)) None = Some r"
    and ts: "targets s = ts1 @ t # ts2"
  shows "\<exists>rootNode. node_id rootNode = nodeIdFor (target_product t) (recipeId r)
      \<and> (node_id rootNode \<notin> set (earlier_ids idx s ts1)
           \<longrightarrow> rootNode = makeNode r (target_product t) (target_ratePerMin t) 0)
      \<and> root_visible (\<lambda>c. node_depth c = 1 \<or> node_id c = node_id rootNode
                            \<or> node_id c \<in> set (earlier_ids idx s ts1))
          idx s (nodes (baseline idx s)) (edges (baseline idx s)) rootNode"
proof -
  let ?b0 = "\<lparr> nodes = [], edges = [], byKey = [], byId = [] \<rparr>"
  let ?before = "fold (baseline_target idx s) ts1 ?b0"
  let ?key = "nodeIdFor (target_product t) (recipeId r)"
  let ?b1 = "baseline_target idx s t ?before"
  let ?P = "\<lambda>k c. node_depth c = 1 \<or> node_id c = k \<or> node_id c \<in> set (earlier_ids idx s ts1)"
  from baseline_targets_wf [OF wf_build_empty, of idx s ts1] have wf: "wf_build ?before"
    by blast
  have ids: "set (earlier_ids idx s ts1) = node_id ` set (nodes ?before)"
    by (simp add: earlier_ids_fold)
  have mk: "\<And>k r p q. ?P k (makeNode r p q 1)"
    by (simp add: makeNode_def Let_def)
  from baseline_target_wf [OF wf, of idx s t] have "wf_build ?b1"
    by blast
  from baseline_targets_wf [OF this, of idx s ts2]
  have sub: "set (nodes ?b1) \<subseteq> set (nodes (baseline idx s))" "set (edges ?b1) \<subseteq> set (edges (baseline idx s))"
    by (simp_all add: grows_def baseline_def ts)
  obtain res b' where en: "ensureNode idx s (target_product t) (target_ratePerMin t) 0 None ?before = (res, b')"
    by (cases "ensureNode idx s (target_product t) (target_ratePerMin t) 0 None ?before") auto
  from en show ?thesis
  proof (cases rule: ensureNode_cases)
    case none
    from ensureNode_id [OF en wf pick] none(1) show ?thesis
      by simp
  next
    case (found r' n)
    from found(1) pick have r': "r' = r"
      by simp
    from wf_buildD(1,2) [OF wf found(2)] have n: "n \<in> set (nodes ?before)" "node_id n = ?key"
      by (simp_all add: r')
    have en': "ensureNode idx s (target_product t) (target_ratePerMin t) 0 None ?before = (Some n, b')"
      using en found(3) by simp
    have all: "\<forall>c\<in>set (nodes b'). ?P (node_id n) c"
      unfolding found(4) ids by blast
    have "root_visible (?P (node_id n)) idx s (nodes ?b1) (edges ?b1) n"
      by (rule baseline_target_root [where P = "?P (node_id n)", OF wf en' all mk])
    then have "root_visible (?P (node_id n)) idx s (nodes (baseline idx s)) (edges (baseline idx s)) n"
      by (rule root_visible_mono [OF sub])
    moreover have "node_id n \<in> set (earlier_ids idx s ts1)"
      unfolding ids using n(1) by blast
    ultimately show ?thesis
      using n(2) by blast
  next
    case (fresh r')
    from fresh(1) pick have r': "r' = r"
      by simp
    let ?root = "makeNode r (target_product t) (target_ratePerMin t) 0"
    have en': "ensureNode idx s (target_product t) (target_ratePerMin t) 0 None ?before = (Some ?root, b')"
      using en fresh(3) by (simp add: r')
    have all: "\<forall>c\<in>set (nodes b'). ?P (node_id ?root) c"
      unfolding fresh(4) ids r' by auto
    have "root_visible (?P (node_id ?root)) idx s (nodes ?b1) (edges ?b1) ?root"
      by (rule baseline_target_root [where P = "?P (node_id ?root)", OF wf en' all mk])
    then have "root_visible (?P (node_id ?root)) idx s (nodes (baseline idx s)) (edges (baseline idx s)) ?root"
      by (rule root_visible_mono [OF sub])
    then show ?thesis
      by (intro exI [of _ ?root]) simp
  qed
qed

lemma PRODUCT_INDEX_pick:
  "map_of (PRODUCT_INDEX RECIPES) p \<noteq> None \<Longrightarrow> pickRecipeWithPrefs (PRODUCT_INDEX RECIPES) p e pb parb \<noteq> None"
  using PRODUCT_INDEX_nonempty [of RECIPES p]
  by (auto simp: pick_None_iff recipes_for_def split: option.splits)

text \<open>
  C3 (as amended). Whatever the budgets, for every target whose product resolves to a
  recipe the built graph has a node with the id of that product and recipe, and for every
  input of that node that has an index entry and resolves (with the node's building as the
  parent hint) a node with the child's id and an edge from the node to it, labelled with
  the input. Unless a node of that id was already materialised for an earlier target of the
  list (\<open>earlier_ids\<close>: the roots and first-hop children of the targets before it), the
  node is the root made for the target's own rate, at depth 0 with
  \<open>runsPerMin = ratePerMin / outputRatePerMin\<close> (0 for a zero output rate). Each such
  child is at depth 1 unless it is the node itself or was already materialised for an earlier
  target. The first target has no earlier ids. In an index built from a catalog every name
  with an entry resolves.
\<close>

theorem build_first_hop_visible:
  "(\<forall>t\<in>set (targets s). \<forall>r.
       pickRecipeWithPrefs idx (target_product t) (choicesRecipe s (target_product t))
         (choicesBuilding s (target_product t)) None = Some r \<longrightarrow>
       (\<exists>rootNode. node_id rootNode = nodeIdFor (target_product t) (recipeId r)
          \<and> root_visible (\<lambda>_. True) idx s (graphNodes (build idx s)) (graphEdges (build idx s)) rootNode))
   \<and> (\<forall>ts1 t ts2 r. targets s = ts1 @ t # ts2 \<longrightarrow>
       pickRecipeWithPrefs idx (target_product t) (choicesRecipe s (target_product t))
         (choicesBuilding s (target_product t)) None = Some r \<longrightarrow>
       (\<exists>rootNode. node_id rootNode = nodeIdFor (target_product t) (recipeId r)
          \<and> (node_id rootNode \<notin> set (earlier_ids idx s ts1)
               \<longrightarrow> rootNode = makeNode r (target_product t) (target_ratePerMin t) 0)
          \<and> root_visible (\<lambda>c. node_depth c = 1 \<or> node_id c = node_id rootNode
                                \<or> node_id c \<in> set (earlier_ids idx s ts1))
              idx s (graphNodes (build idx s)) (graphEdges (build idx s)) rootNode))
   \<and> earlier_ids idx s [] = []
   \<and> node_depth (makeNode r p q 0) = 0
   \<and> runsPerMin (makeNode r p q 0) = (if outputRatePerMin r p = 0 then 0 else q / outputRatePerMin r p)
   \<and> (map_of (PRODUCT_INDEX RECIPES) p \<noteq> None \<longrightarrow>
        pickRecipeWithPrefs (PRODUCT_INDEX RECIPES) p e pb parb \<noteq> None)"
proof (intro conjI ballI allI impI)
  fix t r
  assume t: "t \<in> set (targets s)"
    and pick: "pickRecipeWithPrefs idx (target_product t) (choicesRecipe s (target_product t))
                 (choicesBuilding s (target_product t)) None = Some r"
  from t have ne: "targets s \<noteq> []" by auto
  from baseline_targets_root [OF pick wf_build_empty t] obtain rootNode where
    rid: "node_id rootNode = nodeIdFor (target_product t) (recipeId r)"
    and rv: "root_visible (\<lambda>_. True) idx s (nodes (baseline idx s)) (edges (baseline idx s)) rootNode"
    by (auto simp: baseline_def)
  from build_grows [OF ne, of idx] rv
  have "root_visible (\<lambda>_. True) idx s (graphNodes (build idx s)) (graphEdges (build idx s)) rootNode"
    using root_visible_mono by blast
  with rid show "\<exists>rootNode. node_id rootNode = nodeIdFor (target_product t) (recipeId r)
          \<and> root_visible (\<lambda>_. True) idx s (graphNodes (build idx s)) (graphEdges (build idx s)) rootNode"
    by blast
next
  fix ts1 t ts2 r
  assume ts: "targets s = ts1 @ t # ts2"
    and pick: "pickRecipeWithPrefs idx (target_product t) (choicesRecipe s (target_product t))
                 (choicesBuilding s (target_product t)) None = Some r"
  from ts have ne: "targets s \<noteq> []" by simp
  from baseline_later_root [OF pick ts] obtain rootNode where
    rid: "node_id rootNode = nodeIdFor (target_product t) (recipeId r)"
    and fr: "node_id rootNode \<notin> set (earlier_ids idx s ts1)
               \<longrightarrow> rootNode = makeNode r (target_product t) (target_ratePerMin t) 0"
    and rv: "root_visible (\<lambda>c. node_depth c = 1 \<or> node_id c = node_id rootNode
                                \<or> node_id c \<in> set (earlier_ids idx s ts1))
              idx s (nodes (baseline idx s)) (edges (baseline idx s)) rootNode"
    by blast
  from build_grows [OF ne, of idx] rv
  have "root_visible (\<lambda>c. node_depth c = 1 \<or> node_id c = node_id rootNode
                                \<or> node_id c \<in> set (earlier_ids idx s ts1))
              idx s (graphNodes (build idx s)) (graphEdges (build idx s)) rootNode"
    using root_visible_mono by blast
  with rid fr show "\<exists>rootNode. node_id rootNode = nodeIdFor (target_product t) (recipeId r)
          \<and> (node_id rootNode \<notin> set (earlier_ids idx s ts1)
               \<longrightarrow> rootNode = makeNode r (target_product t) (target_ratePerMin t) 0)
          \<and> root_visible (\<lambda>c. node_depth c = 1 \<or> node_id c = node_id rootNode
                                \<or> node_id c \<in> set (earlier_ids idx s ts1))
              idx s (graphNodes (build idx s)) (graphEdges (build idx s)) rootNode"
    by blast
next
  show "earlier_ids idx s [] = []"
    by (simp add: earlier_ids_def baseline_def)
next
  show "node_depth (makeNode r p q 0) = 0"
    by (simp add: makeNode_def Let_def)
next
  show "runsPerMin (makeNode r p q 0) = (if outputRatePerMin r p = 0 then 0 else q / outputRatePerMin r p)"
    by (simp add: makeNode_def Let_def)
next
  assume "map_of (PRODUCT_INDEX RECIPES) p \<noteq> None"
  then show "pickRecipeWithPrefs (PRODUCT_INDEX RECIPES) p e pb parb \<noteq> None"
    by (rule PRODUCT_INDEX_pick)
qed


theorem build_first_hop_visible_witness:
  "root_visible (\<lambda>c. node_depth c = 1 \<or> node_id c = ''Frame::F1''
                       \<or> node_id c \<in> set [''Gear::G1'', ''Plate::P1''])
     (PRODUCT_INDEX factory) two_targets
     (graphNodes (build (PRODUCT_INDEX factory) two_targets))
     (graphEdges (build (PRODUCT_INDEX factory) two_targets))
     (makeNode Frame_F1 ''Frame'' 12 0)
   \<and> map (\<lambda>n. (node_id n, node_depth n, runsPerMin n))
         (graphNodes (build (PRODUCT_INDEX factory) two_targets))
       = [(''Gear::G1'', 0, 1), (''Plate::P1'', 1, 2 / 15), (''Frame::F1'', 0, 1)]
   \<and> map (\<lambda>e. (source e, target e, label e))
         (graphEdges (build (PRODUCT_INDEX factory) two_targets))
       = [(''Gear::G1'', ''Plate::P1'', ''Plate''), (''Frame::F1'', ''Plate::P1'', ''Plate'')]"
proof -
  have ts: "targets two_targets = [want ''Gear'' 30] @ want ''Frame'' 12 # []"
    by (simp add: two_targets_def planner_def)
  have pick: "pickRecipeWithPrefs (PRODUCT_INDEX factory) (target_product (want ''Frame'' 12))
                (choicesRecipe two_targets (target_product (want ''Frame'' 12)))
                (choicesBuilding two_targets (target_product (want ''Frame'' 12)))
                None = Some Frame_F1"
    unfolding factory_index by (simp add: engine_defs factory_defs two_targets_def)
  have tp: "target_product (want ''Frame'' 12) = ''Frame''" "target_ratePerMin (want ''Frame'' 12) = 12"
    by (simp_all add: want_def)
  have ids: "earlier_ids (PRODUCT_INDEX factory) two_targets [want ''Gear'' 30] = [''Gear::G1'', ''Plate::P1'']"
    unfolding earlier_ids_def factory_index by (simp add: engine_defs factory_defs two_targets_def)
  have key: "nodeIdFor ''Frame'' (recipeId Frame_F1) = ''Frame::F1''"
    by (simp add: nodeIdFor_def Frame_F1_def)
  have g: "map (\<lambda>n. (node_id n, node_depth n, runsPerMin n))
         (graphNodes (build (PRODUCT_INDEX factory) two_targets))
       = [(''Gear::G1'', 0, 1), (''Plate::P1'', 1, 2 / 15), (''Frame::F1'', 0, 1)]"
    "map (\<lambda>e. (source e, target e, label e))
         (graphEdges (build (PRODUCT_INDEX factory) two_targets))
       = [(''Gear::G1'', ''Plate::P1'', ''Plate''), (''Frame::F1'', ''Plate::P1'', ''Plate'')]"
    unfolding factory_index by (simp_all add: engine_defs factory_defs two_targets_def)
  show ?thesis
    using build_first_hop_visible [where s = two_targets
        and idx = "PRODUCT_INDEX factory", THEN conjunct2, THEN conjunct1, rule_format, OF ts pick]
    unfolding tp g ids key by auto
qed

text \<open>
  C3 (as stated) fails for a recipe that consumes its own product and for a second target
  on a product already in the graph: the only node is the root at depth 0, running once
  per minute, although Yeast is an input with an index entry and the second target asks
  for 40 per minute, which is 2 runs per minute.
\<close>

theorem build_first_hop_counterexample:
  "map (\<lambda>n. (node_id n, node_depth n, runsPerMin n))
     (graphNodes (build (PRODUCT_INDEX [Yeast_Y1]) (planner [want ''Yeast'' 20, want ''Yeast'' 40] Map.empty)))
     = [(''Yeast::Y1'', 0, 1)]
   \<and> map_of (PRODUCT_INDEX [Yeast_Y1]) ''Yeast'' = Some [Yeast_Y1]
   \<and> 40 / outputRatePerMin Yeast_Y1 ''Yeast'' = 2"
proof -
  have idx: "PRODUCT_INDEX [Yeast_Y1] = [(''Yeast'', [Yeast_Y1])]"
    by (simp add: engine_defs Yeast_Y1_def)
  show ?thesis
    unfolding idx by (simp add: engine_defs Yeast_Y1_def)
qed

end
